theory Spec2Isabelle
  imports Complex_Main
begin

section \<open>Numeric model\<close>

text \<open>
  The program computes on numpy arrays of doubles in which NaN marks "no evidence".
  A double is modelled as a \<open>real option\<close>: \<open>None\<close> is NaN, \<open>Some r\<close> a number.
  Arithmetic on numbers is that of the reals (rounding, overflow and the infinities of
  IEEE doubles are not modelled); NaN is absorbing, as in numpy. A one-dimensional
  array is a list; a two-dimensional array is the list of its columns where the source
  reads it by column (\<open>a[:, j]\<close>) and the list of its rows where it reads it by row.
\<close>

type_synonym fl = "real option"

datatype error = IndexError | ValueError

definition isnan :: "fl \<Rightarrow> bool" where
  "isnan a = (a = None)"

definition fl2 :: "(real \<Rightarrow> real \<Rightarrow> real) \<Rightarrow> fl \<Rightarrow> fl \<Rightarrow> fl" where
  "fl2 f a b = (case a of None \<Rightarrow> None | Some x \<Rightarrow> (case b of None \<Rightarrow> None | Some y \<Rightarrow> Some (f x y)))"

definition fadd :: "fl \<Rightarrow> fl \<Rightarrow> fl" where
  "fadd = fl2 (+)"

definition fsub :: "fl \<Rightarrow> fl \<Rightarrow> fl" where
  "fsub = fl2 (-)"

definition fmul :: "fl \<Rightarrow> fl \<Rightarrow> fl" where
  "fmul = fl2 (*)"

definition fdiv :: "fl \<Rightarrow> fl \<Rightarrow> fl" where
  "fdiv = fl2 (/)"

section \<open>Evidence fusion: \<open>zero_as_one\<close> and \<open>nanavg_vectors\<close>\<close>

text \<open>
  \<^verbatim>\<open>def zero_as_one(a): return np.where(a == 0, 1, a)\<close>, at one element.
\<close>

definition zero_as_one :: "real \<Rightarrow> real" where
  "zero_as_one a = (if a = 0 then 1 else a)"

text \<open>
  A weight argument of \<open>nanavg_vectors\<close> is a scalar (the default \<open>1.0\<close>) or an array;
  numpy broadcasts a scalar over the vector. Arrays of different lengths do not
  broadcast (numpy raises); the theorems below are about arrays of one length.
\<close>

datatype weight = Scalar real | PerElem "real list"

fun broadcast :: "nat \<Rightarrow> weight \<Rightarrow> real list" where
  "broadcast n (Scalar w) = replicate n w"
| "broadcast n (PerElem ws) = ws"

text \<open>
  One position of \<open>nanavg_vectors\<close>, in the order of the source's statements:
  \<^verbatim>\<open>
    a_nan = np.isnan(a);  b_nan = np.isnan(b)
    c = a*wa + b*wb
    c /= zero_as_one(wa+wb)
    c[a_nan] = b[a_nan]
    in_a_not_b = (~a_nan) & b_nan
    c[in_a_not_b] = a[in_a_not_b]
  \<close>
\<close>

definition nanavg_elem :: "fl \<Rightarrow> fl \<Rightarrow> real \<Rightarrow> real \<Rightarrow> fl" where
  "nanavg_elem a b wa wb =
     (let a_nan = isnan a;
          b_nan = isnan b;
          c = fadd (fmul a (Some wa)) (fmul b (Some wb));
          c = fdiv c (Some (zero_as_one (wa + wb)));
          c = (if a_nan then b else c);
          in_a_not_b = (\<not> a_nan \<and> b_nan);
          c = (if in_a_not_b then a else c)
      in c)"

definition nanavg_vectors :: "fl list \<Rightarrow> fl list \<Rightarrow> weight \<Rightarrow> weight \<Rightarrow> fl list" where
  "nanavg_vectors a b wa wb =
     map (\<lambda>(ai, bi, wai, wbi). nanavg_elem ai bi wai wbi)
       (zip a (zip b (zip (broadcast (length a) wa) (broadcast (length a) wb))))"

section \<open>numpy helpers\<close>

text \<open>\<open>np.unique\<close>: the distinct values, sorted ascending.\<close>

definition np_unique :: "'a::linorder list \<Rightarrow> 'a list" where
  "np_unique xs = sort (remdups xs)"

text \<open>\<open>np.diff\<close>: \<open>out[i] = a[i+1] - a[i]\<close>; one value less than the input.\<close>

definition np_diff :: "real list \<Rightarrow> real list" where
  "np_diff xs = map (\<lambda>(a, b). b - a) (zip xs (tl xs))"

text \<open>\<open>np.where(mask)[0]\<close>: the indexes at which the condition holds, ascending.\<close>

definition np_where :: "bool list \<Rightarrow> nat list" where
  "np_where cond = filter (\<lambda>i. cond ! i) [0..<length cond]"

text \<open>\<open>.mean()\<close> of a non-empty array.\<close>

definition mean :: "real list \<Rightarrow> real" where
  "mean ys = sum_list ys / real (length ys)"

text \<open>\<open>np.nanmean\<close>: the mean of the entries that are not NaN (NaN when there is none).\<close>

definition nanmean :: "fl list \<Rightarrow> fl" where
  "nanmean row =
     (let vals = map the (filter (\<lambda>a. \<not> isnan a) row)
      in if vals = [] then None else Some (mean vals))"

text \<open>\<open>np.nancumsum\<close>: the running sum in which a NaN counts as 0.\<close>

fun cumsum_from :: "real \<Rightarrow> real list \<Rightarrow> real list" where
  "cumsum_from acc [] = []"
| "cumsum_from acc (x # xs) = (acc + x) # cumsum_from (acc + x) xs"

definition nan_to_zero :: "fl \<Rightarrow> real" where
  "nan_to_zero a = (case a of None \<Rightarrow> 0 | Some v \<Rightarrow> v)"

definition np_nancumsum :: "fl list \<Rightarrow> real list" where
  "np_nancumsum xs = cumsum_from 0 (map nan_to_zero xs)"

text \<open>
  \<open>np.argmax\<close>: the first index of the largest entry. numpy raises on an empty array;
  the merge below calls it on a vector with a non-empty intersection only.
\<close>

fun argmax_loop :: "int list \<Rightarrow> nat \<Rightarrow> nat \<Rightarrow> int \<Rightarrow> nat" where
  "argmax_loop [] i best bv = best"
| "argmax_loop (x # xs) i best bv =
     (if x > bv then argmax_loop xs (Suc i) i x else argmax_loop xs (Suc i) best bv)"

definition np_argmax :: "int list \<Rightarrow> nat" where
  "np_argmax xs = (case xs of [] \<Rightarrow> 0 | x # rest \<Rightarrow> argmax_loop rest 1 0 x)"

text \<open>
  \<open>ndarray.round(decimals=10)\<close>: scale by \<open>10^10\<close>, round to the nearest integer
  (a tie goes to the even one), scale back.
\<close>

definition rint :: "real \<Rightarrow> int" where
  "rint x =
     (let f = \<lfloor>x\<rfloor>; d = x - of_int f
      in if d < 1 / 2 then f else if d > 1 / 2 then f + 1 else if even f then f else f + 1)"

definition round10 :: "real \<Rightarrow> real" where
  "round10 x = of_int (rint (x * 10 ^ 10)) / 10 ^ 10"

section \<open>Leaf partitioner: \<open>leaf_samples\<close>\<close>

text \<open>
  The fitted forest is an oracle: \<open>n_estimators\<close> trees, and for a sample row and a
  tree index the id of the leaf the sample falls into (\<open>rf.apply\<close>). Training the
  forest is outside the model.
\<close>

record 'r forest =
  n_estimators :: nat
  rf_apply :: "'r \<Rightarrow> nat \<Rightarrow> int"

text \<open>
  The body of the loop over trees, for the column \<open>leaf_ids[:, t]\<close>:
  \<^verbatim>\<open>
    uniq_ids = np.unique(leaf_ids[:,t])
    sample_idxs_in_leaves = [np.where(leaf_ids[:, t] == id)[0] for id in uniq_ids]
  \<close>
\<close>

definition sample_idxs_in_leaves :: "int list \<Rightarrow> nat list list" where
  "sample_idxs_in_leaves ids =
     (let uniq_ids = np_unique ids
      in map (\<lambda>id. np_where (map (\<lambda>v. v = id) ids)) uniq_ids)"

definition leaf_samples :: "'r forest \<Rightarrow> 'r list \<Rightarrow> nat list list" where
  "leaf_samples rf X_not_col =
     (let n_trees = n_estimators rf;
          leaf_ids = map (\<lambda>t. map (\<lambda>row. rf_apply rf row t) X_not_col) [0..<n_trees]
      in concat (map (\<lambda>t. sample_idxs_in_leaves (leaf_ids ! t)) [0..<n_trees]))"

section \<open>Continuous stratifier\<close>

subsection \<open>\<open>finite_differences\<close>\<close>

text \<open>
  Returns \<open>(leaf_xranges, leaf_slopes, ignored)\<close>; \<open>leaf_xranges\<close> is a two-dimensional
  array, held by rows. With one distinct x the source returns
  \<^verbatim>\<open>np.array([[0]],dtype=x.dtype), np.array([0.0]), ignored\<close>.
\<close>

definition finite_differences :: "real list \<Rightarrow> real list \<Rightarrow> real list list \<times> real list \<times> nat" where
  "finite_differences x y =
     (let ignored = 0;
          uniq_x = np_unique x;
          avg_y = map (\<lambda>ux. mean (map snd (filter (\<lambda>(xi, yi). xi = ux) (zip x y)))) uniq_x
      in if length uniq_x = 1 then ([[0]], [0], ignored + length x)
         else
           (let x_deltas = np_diff uniq_x;
                y_deltas = np_diff avg_y;
                leaf_slopes = map (\<lambda>(dy, dx). dy / dx) (zip y_deltas x_deltas);
                leaf_xranges = map (\<lambda>(a, b). [a, b]) (zip uniq_x (tl uniq_x))
            in (leaf_xranges, leaf_slopes, ignored)))"

subsection \<open>\<open>collect_discrete_slopes\<close>\<close>

text \<open>
  The loop over the leaves, with the accumulators \<open>(leaf_xranges, leaf_slopes, ignored)\<close>.
  Indexing \<open>X_col[samples]\<close> or \<open>y[samples]\<close> out of range raises IndexError, and
  \<open>np.min\<close> of an empty leaf raises ValueError.
\<close>

fun collect_loop ::
  "nat list list \<Rightarrow> real list \<Rightarrow> real list \<Rightarrow> real list list \<times> real list \<times> nat \<Rightarrow>
   error + (real list list \<times> real list \<times> nat)" where
  "collect_loop [] X_col y acc = Inr acc"
| "collect_loop (samples # leaves) X_col y (leaf_xranges, leaf_slopes, ignored) =
     (if \<not> list_all (\<lambda>i. i < length X_col \<and> i < length y) samples then Inl IndexError
      else
        (let leaf_x = map (\<lambda>i. X_col ! i) samples;
             leaf_y = map (\<lambda>i. y ! i) samples
         in if leaf_x = [] then Inl ValueError
            else if \<bar>Min (set leaf_x) - Max (set leaf_x)\<bar> < 1 / 10 ^ 8
            then collect_loop leaves X_col y (leaf_xranges, leaf_slopes, ignored + length leaf_x)
            else
              (case finite_differences leaf_x leaf_y of
                 (leaf_xranges_, leaf_slopes_, ignored_) \<Rightarrow>
                   collect_loop leaves X_col y
                     (leaf_xranges @ leaf_xranges_, leaf_slopes @ leaf_slopes_, ignored + ignored_))))"

definition collect_discrete_slopes ::
  "'r forest \<Rightarrow> real list \<Rightarrow> 'r list \<Rightarrow> real list \<Rightarrow> error + (real list list \<times> real list \<times> nat)" where
  "collect_discrete_slopes rf X_col X_not_col y =
     (let leaves = leaf_samples rf X_not_col
      in collect_loop leaves X_col y ([], [], 0))"

subsection \<open>\<open>avg_slopes_at_x_jit\<close> and \<open>avg_slopes_at_x_nonparallel_jit\<close>\<close>

text \<open>
  \<open>slopes\<close> is the \<open>nx \<times> nslopes\<close> matrix, held by rows: entry \<open>(x, i)\<close> is
  \<^verbatim>\<open>np.where( (uniq_x < xr[0]) | (uniq_x >= xr[1]), np.nan, slope)\<close>
  for the range \<open>xr = leaf_ranges[i]\<close> and \<open>slope = leaf_slopes[i]\<close>. The second loop
  reduces each row to its mean and to the count of its entries that are not NaN.
\<close>

definition avg_slopes_at_x_jit ::
  "real list \<Rightarrow> real list list \<Rightarrow> fl list \<Rightarrow> fl list \<times> nat list" where
  "avg_slopes_at_x_jit uniq_x leaf_ranges leaf_slopes =
     (let nslopes = length leaf_slopes;
          slopes = map (\<lambda>x. map (\<lambda>i.
                      (let xr = leaf_ranges ! i; slope = leaf_slopes ! i
                       in if x < xr ! 0 \<or> x \<ge> xr ! 1 then None else slope)) [0..<nslopes]) uniq_x;
          avg_slope_at_x = map (\<lambda>row.
                      (let n_nan = length (filter isnan row)
                       in if n_nan = nslopes then None else nanmean row)) slopes;
          slope_counts_at_x = map (\<lambda>row.
                      (let n_nan = length (filter isnan row) in nslopes - n_nan)) slopes
      in (avg_slope_at_x, slope_counts_at_x))"

definition avg_slopes_at_x_nonparallel_jit ::
  "real list \<Rightarrow> real list list \<Rightarrow> fl list \<Rightarrow> fl list \<times> nat list" where
  "avg_slopes_at_x_nonparallel_jit uniq_x leaf_ranges leaf_slopes =
     (let nx = length uniq_x;
          nslopes = length leaf_slopes;
          slopes = map (\<lambda>k. map (\<lambda>i.
                      (let xr = leaf_ranges ! i; slope = leaf_slopes ! i
                       in if uniq_x ! k < xr ! 0 \<or> uniq_x ! k \<ge> xr ! 1 then None else slope))
                      [0..<nslopes]) [0..<nx];
          avg_value_at_x = map (\<lambda>row.
                      (let n_nan = length (filter isnan row)
                       in if n_nan = nslopes then None else nanmean row)) slopes;
          slope_counts_at_x = map (\<lambda>row.
                      (let n_nan = length (filter isnan row) in nslopes - n_nan)) slopes
      in (avg_value_at_x, slope_counts_at_x))"

subsection \<open>\<open>partial_dependence\<close>\<close>

text \<open>The tuple that \<open>partial_dependence\<close> returns, one field per component.\<close>

record pd_result =
  res_leaf_xranges :: "real list list"
  res_leaf_slopes :: "real list"
  res_slope_counts_at_x :: "nat list"
  res_dx :: "real list"
  res_slope_at_x :: "fl list"
  res_pdpx :: "real list"
  res_pdpy :: "real list"
  res_ignored :: nat

text \<open>
  The integration of \<open>partial_dependence\<close> (the statements after the confidence
  threshold), from the unique x values and the thresholded slopes:
  \<^verbatim>\<open>
    dx = np.diff(pdpx)
    dydx = slope_at_x[:-1]
    y_deltas = dydx * dx
    pdpy = np.nancumsum(y_deltas)
    pdpy = np.concatenate([np.array([0]), pdpy])
    idx_not_adjacent_nans = np.where(~(np.isnan(slope_at_x[1:]) & np.isnan(slope_at_x[:-1])))[0] + 1
    if not np.isnan(slope_at_x[0]):
        idx_not_adjacent_nans = np.concatenate([np.array([0]), idx_not_adjacent_nans])
    pdpx = pdpx[idx_not_adjacent_nans]
    pdpy = pdpy[idx_not_adjacent_nans]
  \<close>
  \<open>slope_at_x[0]\<close> raises IndexError on an empty array. The result is \<open>(dx, pdpx, pdpy)\<close>.
\<close>

definition integrate_slopes ::
  "real list \<Rightarrow> fl list \<Rightarrow> error + (real list \<times> real list \<times> real list)" where
  "integrate_slopes real_uniq_x slope_at_x =
     (let pdpx = real_uniq_x;
          dx = np_diff pdpx;
          dydx = butlast slope_at_x;
          y_deltas = map (\<lambda>(s, d). fmul s (Some d)) (zip dydx dx);
          pdpy = np_nancumsum y_deltas;
          pdpy = 0 # pdpy;
          idx_not_adjacent_nans =
            map Suc (np_where (map (\<lambda>(a, b). \<not> (isnan a \<and> isnan b))
                                  (zip (tl slope_at_x) (butlast slope_at_x))))
      in if slope_at_x = [] then Inl IndexError
         else
           (let idx_not_adjacent_nans =
                  (if \<not> isnan (slope_at_x ! 0) then 0 # idx_not_adjacent_nans
                   else idx_not_adjacent_nans);
                pdpx = map (\<lambda>i. pdpx ! i) idx_not_adjacent_nans;
                pdpy = map (\<lambda>i. pdpy ! i) idx_not_adjacent_nans
            in Inr (dx, pdpx, pdpy)))"

text \<open>
  \<open>partial_dependence\<close> after the forest is fitted. A row of \<open>X\<close> is the value of the
  column \<open>colname\<close> paired with the other columns' values. The confidence threshold is
  \<^verbatim>\<open>slope_at_x = np.where(slope_counts_at_x >= min_slopes_per_x, slope_at_x, np.nan)\<close>.
\<close>

definition partial_dependence ::
  "'r forest \<Rightarrow> (real \<times> 'r) list \<Rightarrow> real list \<Rightarrow> int \<Rightarrow> bool \<Rightarrow> error + pd_result" where
  "partial_dependence rf X y min_slopes_per_x parallel_jit =
     (let X_not_col = map snd X;
          X_col = map (\<lambda>row. round10 (fst row)) X
      in case collect_discrete_slopes rf X_col X_not_col y of
           Inl e \<Rightarrow> Inl e
         | Inr (leaf_xranges, leaf_slopes, ignored) \<Rightarrow>
             (let real_uniq_x = np_unique X_col;
                  (slope_at_x, slope_counts_at_x) =
                     (if parallel_jit
                      then avg_slopes_at_x_jit real_uniq_x leaf_xranges (map Some leaf_slopes)
                      else avg_slopes_at_x_nonparallel_jit real_uniq_x leaf_xranges (map Some leaf_slopes));
                  min_slopes_per_x = (if min_slopes_per_x \<le> 0 then 1 else min_slopes_per_x);
                  slope_at_x = map (\<lambda>(c, s). if int c \<ge> min_slopes_per_x then s else None)
                                 (zip slope_counts_at_x slope_at_x)
              in case integrate_slopes real_uniq_x slope_at_x of
                   Inl e \<Rightarrow> Inl e
                 | Inr (dx, pdpx, pdpy) \<Rightarrow>
                     Inr \<lparr>res_leaf_xranges = leaf_xranges, res_leaf_slopes = leaf_slopes,
                          res_slope_counts_at_x = slope_counts_at_x, res_dx = dx,
                          res_slope_at_x = slope_at_x, res_pdpx = pdpx, res_pdpy = pdpy,
                          res_ignored = ignored\<rparr>))"

subsection \<open>\<open>plot_stratpd\<close>, one trial\<close>

text \<open>
  The nested \<open>avg_pd_curve\<close>: a dictionary from x to the sum of the y values of all
  curves at x and one to their count (each curve is added \<open>n_trials\<close> times), then the
  averages in ascending order of x.
\<close>

definition avg_pd_curve :: "nat \<Rightarrow> real list list \<Rightarrow> real list list \<Rightarrow> real list \<times> real list" where
  "avg_pd_curve n_trials all_pdpx all_pdpy =
     (let points = concat (map (\<lambda>(px, py). zip px py) (zip all_pdpx all_pdpy));
          m = (\<lambda>x. real n_trials * sum_list (map snd (filter (\<lambda>(x', y'). x' = x) points)));
          c = (\<lambda>x. n_trials * length (filter (\<lambda>(x', y'). x' = x) points));
          pdpx = np_unique (map fst points);
          pdpy = map (\<lambda>x. m x / real (c x)) pdpx
      in (pdpx, pdpy))"

text \<open>
  \<open>plot_stratpd\<close> with \<open>n_trials = 1\<close> (no resampling), without the drawing.
  \<open>featimp.compute_importance\<close> is not part of these sources and is a parameter; it
  may raise. After the curve is averaged the source has
  \<^verbatim>\<open>if len(pdpy)==0: raise ValueError("No partial dependence y values, ...")\<close>.
\<close>

definition plot_stratpd ::
  "(real list \<Rightarrow> real list \<Rightarrow> real list \<Rightarrow> error + real \<times> real) \<Rightarrow>
   'r forest \<Rightarrow> (real \<times> 'r) list \<Rightarrow> real list \<Rightarrow> int \<Rightarrow> error + (real list \<times> real list \<times> real)" where
  "plot_stratpd compute_importance rf X y min_slopes_per_x =
     (let X_col = map (\<lambda>row. round10 (fst row)) X;
          n_trials = 1
      in case partial_dependence rf X y min_slopes_per_x True of
           Inl e \<Rightarrow> Inl e
         | Inr r \<Rightarrow>
             (case compute_importance X_col (res_pdpx r) (res_pdpy r) of
                Inl e \<Rightarrow> Inl e
              | Inr (impact, importance) \<Rightarrow>
                  (let ignored = real (res_ignored r) / real n_trials;
                       (pdpx, pdpy) = avg_pd_curve n_trials [res_pdpx r] [res_pdpy r]
                   in if length pdpy = 0 then Inl ValueError
                      else Inr (pdpx, pdpy, ignored))))"

section \<open>Categorical stratifier: \<open>catwise_leaves\<close>\<close>

text \<open>
  The body of the loop over the leaves for one leaf, from the category codes and the
  responses of its samples. The result is \<open>None\<close> for a leaf with fewer than two
  distinct categories (the \<open>continue\<close>), otherwise the leaf's column of \<open>leaf_deltas\<close>
  and its column of \<open>leaf_counts\<close>:
  \<^verbatim>\<open>
    uniq_leaf_cats, count_leaf_cats = np.unique(leaf_cats, return_counts=True)
    avg_y_per_cat = np.array([leaf_y[leaf_cats==cat].mean() for cat in uniq_leaf_cats])
    if len(uniq_leaf_cats) < 2: ...; continue
    idx_of_ref_cat_in_leaf = 0
    delta_y_per_cat = avg_y_per_cat - avg_y_per_cat[idx_of_ref_cat_in_leaf]
    leaf_deltas[uniq_leaf_cats, leaf_i] = delta_y_per_cat
    leaf_counts[uniq_leaf_cats, leaf_i] = count_leaf_cats
  \<close>
  The columns start as \<open>max_catcode+1\<close> entries of NaN and of 0. Category codes are
  natural numbers (\<open>cat_partial_dependence\<close> rejects negative codes before it calls
  \<open>catwise_leaves\<close>); a code above \<open>max_catcode\<close> raises IndexError at the assignment.
\<close>

definition catwise_leaf :: "nat list \<Rightarrow> real list \<Rightarrow> nat \<Rightarrow> error + (fl list \<times> int list) option" where
  "catwise_leaf leaf_cats leaf_y max_catcode =
     (let uniq_leaf_cats = np_unique leaf_cats;
          count_leaf_cats = map (\<lambda>cat. int (count_list leaf_cats cat)) uniq_leaf_cats;
          avg_y_per_cat = map (\<lambda>cat. mean (map snd (filter (\<lambda>(c, yi). c = cat) (zip leaf_cats leaf_y))))
                            uniq_leaf_cats
      in if length uniq_leaf_cats < 2 then Inr None
         else
           (let idx_of_ref_cat_in_leaf = 0;
                delta_y_per_cat = map (\<lambda>a. a - avg_y_per_cat ! idx_of_ref_cat_in_leaf) avg_y_per_cat
            in if \<not> list_all (\<lambda>cat. cat \<le> max_catcode) uniq_leaf_cats then Inl IndexError
               else Inr (Some
                 (fold (\<lambda>(cat, d) col. col[cat := Some d]) (zip uniq_leaf_cats delta_y_per_cat)
                    (replicate (max_catcode + 1) None),
                  fold (\<lambda>(cat, n) col. col[cat := n]) (zip uniq_leaf_cats count_leaf_cats)
                    (replicate (max_catcode + 1) 0)))))"

text \<open>
  The loop over the leaves. The source fills one column per leaf and drops the columns
  of the ignored leaves at the end (\<open>keep_leaf_idxs\<close>); the model appends the columns
  of the kept leaves. The accumulators are \<open>(leaf_deltas, leaf_counts, ignored)\<close>.
\<close>

fun catwise_loop ::
  "nat list list \<Rightarrow> nat list \<Rightarrow> real list \<Rightarrow> nat \<Rightarrow> fl list list \<times> int list list \<times> nat \<Rightarrow>
   error + (fl list list \<times> int list list \<times> nat)" where
  "catwise_loop [] X_col y max_catcode acc = Inr acc"
| "catwise_loop (sample # leaves) X_col y max_catcode (leaf_deltas, leaf_counts, ignored) =
     (if \<not> list_all (\<lambda>i. i < length X_col \<and> i < length y) sample then Inl IndexError
      else
        (case catwise_leaf (map (\<lambda>i. X_col ! i) sample) (map (\<lambda>i. y ! i) sample) max_catcode of
           Inl e \<Rightarrow> Inl e
         | Inr None \<Rightarrow>
             catwise_loop leaves X_col y max_catcode (leaf_deltas, leaf_counts, ignored + length sample)
         | Inr (Some (d, c)) \<Rightarrow>
             catwise_loop leaves X_col y max_catcode (leaf_deltas @ [d], leaf_counts @ [c], ignored)))"

definition catwise_leaves ::
  "'r forest \<Rightarrow> 'r list \<Rightarrow> nat list \<Rightarrow> real list \<Rightarrow> nat \<Rightarrow>
   error + (fl list list \<times> int list list \<times> nat)" where
  "catwise_leaves rf X_not_col X_col y max_catcode =
     (let leaves = leaf_samples rf X_not_col
      in catwise_loop leaves X_col y max_catcode ([], [], 0))"

section \<open>Categorical stratifier: \<open>avg_values_at_cat\<close>\<close>

text \<open>
  \<open>leaf_deltas\<close> and \<open>leaf_counts\<close> are matrices with one row per category and one
  column per leaf, held by columns. The running state is \<open>(catavg, catavg_weight)\<close>.
\<close>

definition are_intersecting :: "fl list \<Rightarrow> fl list \<Rightarrow> bool list" where
  "are_intersecting catavg v = map (\<lambda>(a, b). \<not> isnan a \<and> \<not> isnan b) (zip catavg v)"

text \<open>
  \<^verbatim>\<open>ix = np.argmax(np.where((cur_weight>0) & are_intersecting, cur_weight, 0))\<close>
\<close>

definition merge_ix :: "fl list \<Rightarrow> fl list \<Rightarrow> int list \<Rightarrow> nat" where
  "merge_ix catavg v cur_weight =
     np_argmax (map (\<lambda>(w, a). if w > 0 \<and> a then w else 0)
                  (zip cur_weight (are_intersecting catavg v)))"

text \<open>
  The body of the loop over the work list for one column \<open>v = leaf_deltas[:,j]\<close> with
  \<open>cur_weight = leaf_counts[:,j]\<close>; \<open>None\<close> is the \<open>continue\<close> of an empty intersection.
\<close>

definition merge_column ::
  "fl list \<times> int list \<Rightarrow> fl list \<Rightarrow> int list \<Rightarrow> (fl list \<times> int list) option" where
  "merge_column st v cur_weight =
     (case st of (catavg, catavg_weight) \<Rightarrow>
        (let intersection_idx = np_where (are_intersecting catavg v)
         in if length intersection_idx = 0 then None
            else
              (let ix = merge_ix catavg v cur_weight;
                   shifted_v = map (\<lambda>x. fsub x (v ! ix)) v;
                   relative_to_value = catavg ! ix;
                   adjusted_v = map (\<lambda>x. fadd x relative_to_value) shifted_v;
                   catavg = nanavg_vectors catavg adjusted_v
                              (PerElem (map real_of_int catavg_weight))
                              (PerElem (map real_of_int cur_weight));
                   catavg_weight = map (\<lambda>(a, b). a + b) (zip catavg_weight cur_weight)
               in Some (catavg, catavg_weight))))"

text \<open>One pass \<open>for j in work\<close>; returns the state and the leaves completed in the pass.\<close>

fun merge_pass ::
  "fl list list \<Rightarrow> int list list \<Rightarrow> nat list \<Rightarrow> fl list \<times> int list \<Rightarrow> nat list \<Rightarrow>
   (fl list \<times> int list) \<times> nat list" where
  "merge_pass leaf_deltas leaf_counts [] st completed = (st, completed)"
| "merge_pass leaf_deltas leaf_counts (j # work) st completed =
     (case merge_column st (leaf_deltas ! j) (leaf_counts ! j) of
        None \<Rightarrow> merge_pass leaf_deltas leaf_counts work st completed
      | Some st' \<Rightarrow> merge_pass leaf_deltas leaf_counts work st' (completed @ [j]))"

text \<open>
  \<^verbatim>\<open>while len(work)>0 and len(completed)>0 and iteration<=max_iter\<close>: the first argument
  is the number of iterations still allowed, the flag says whether the last pass
  completed a leaf. Returns the state and the leaves left in the work list.
\<close>

fun merge_while ::
  "nat \<Rightarrow> fl list list \<Rightarrow> int list list \<Rightarrow> nat list \<Rightarrow> bool \<Rightarrow> fl list \<times> int list \<Rightarrow>
   (fl list \<times> int list) \<times> nat list" where
  "merge_while 0 leaf_deltas leaf_counts work completed_any st = (st, work)"
| "merge_while (Suc k) leaf_deltas leaf_counts work completed_any st =
     (if length work > 0 \<and> completed_any
      then (case merge_pass leaf_deltas leaf_counts work st [] of
              (st', completed) \<Rightarrow>
                merge_while k leaf_deltas leaf_counts
                  (filter (\<lambda>j. j \<notin> set completed) work) (length completed > 0) st')
      else (st, work))"

text \<open>
  The work list is a Python set, whose iteration order is left to the implementation;
  \<open>avg_values_at_cat_in\<close> takes the order in which the first pass enumerates it, and
  later passes keep the relative order. The result is
  \<open>(catavg, catavg_weight, merge_ignored)\<close>; \<open>leaf_deltas[:,0]\<close> raises IndexError when
  there is no column. In the source \<open>catavg_weight\<close> is a view of \<open>leaf_counts[:,0]\<close>
  and \<open>catavg_weight += cur_weight\<close> writes through it; column 0 is never in the work
  list, so neither a later merge nor \<open>merge_ignored\<close> reads the changed column.
\<close>

definition avg_values_at_cat_in ::
  "nat list \<Rightarrow> fl list list \<Rightarrow> int list list \<Rightarrow> int \<Rightarrow> error + (fl list \<times> int list \<times> int)" where
  "avg_values_at_cat_in work leaf_deltas leaf_counts max_iter =
     (if length leaf_deltas = 0 \<or> length leaf_counts = 0 then Inl IndexError
      else
        (let catavg = leaf_deltas ! 0;
             catavg_weight = leaf_counts ! 0
         in case merge_while (nat max_iter) leaf_deltas leaf_counts work True (catavg, catavg_weight) of
              ((catavg, catavg_weight), work) \<Rightarrow>
                (let merge_ignored =
                       (if length work > 0
                        then sum_list (map (\<lambda>j. sum_list (leaf_counts ! j)) work) else 0)
                 in Inr (catavg, catavg_weight, merge_ignored))))"

text \<open>
  \<^verbatim>\<open>work = set(range(1,leaf_deltas.shape[1]))\<close>, enumerated in ascending order (the
  order in which CPython iterates this set of small integers).
\<close>

definition avg_values_at_cat ::
  "fl list list \<Rightarrow> int list list \<Rightarrow> int \<Rightarrow> error + (fl list \<times> int list \<times> int)" where
  "avg_values_at_cat leaf_deltas leaf_counts max_iter =
     avg_values_at_cat_in [1..<length leaf_deltas] leaf_deltas leaf_counts max_iter"

section \<open>Invariants used in the proofs\<close>

text \<open>
  The accumulators of \<open>collect_loop\<close> stay aligned, and the right end of every
  collected range is a value of the column.
\<close>

definition segs_ok :: "real list \<Rightarrow> real list list \<times> real list \<times> nat \<Rightarrow> bool" where
  "segs_ok X_col acc =
     (case acc of (xr, sl, ig) \<Rightarrow> length xr = length sl \<and> list_all (\<lambda>r. r ! 1 \<in> set X_col) xr)"

text \<open>
  A CatWeight column aligned with its CatDelta column: both have one entry per
  category code, and a category has a value exactly where its sample count is
  positive.
\<close>

definition aligned_column :: "nat \<Rightarrow> fl list \<Rightarrow> int list \<Rightarrow> bool" where
  "aligned_column max_catcode d c =
     (length d = max_catcode + 1 \<and> length c = max_catcode + 1 \<and>
      list_all (\<lambda>i. (d ! i \<noteq> None) = (0 < c ! i)) [0..<max_catcode + 1])"

text \<open>
  Leaves whose categories fully overlap: the two matrices have the same number of
  columns, every column has \<open>ncat\<close> rows, and in every column every category has a
  value and a positive sample count.
\<close>

definition fully_overlapping :: "fl list list \<Rightarrow> int list list \<Rightarrow> nat \<Rightarrow> bool" where
  "fully_overlapping leaf_deltas leaf_counts ncat =
     (length leaf_counts = length leaf_deltas \<and>
      list_all (\<lambda>j. length (leaf_deltas ! j) = ncat \<and> length (leaf_counts ! j) = ncat \<and>
                  list_all (\<lambda>i. leaf_deltas ! j ! i \<noteq> None \<and> 0 < leaf_counts ! j ! i) [0..<ncat])
        [0..<length leaf_deltas])"

text \<open>
  The vector \<open>v\<close> is the vector \<open>u\<close> moved by one constant: both have a value at every
  category, and the difference of the two values is the same at every category.
\<close>

definition shifted_copy :: "fl list \<Rightarrow> fl list \<Rightarrow> bool" where
  "shifted_copy u v =
     list_all (\<lambda>i. u ! i \<noteq> None \<and> v ! i \<noteq> None \<and>
                   the (v ! i) - the (u ! i) = the (v ! 0) - the (u ! 0)) [0..<length u]"

section \<open>Properties of the evidence fusion\<close>

lemma zero_as_one_nonzero: "zero_as_one w \<noteq> 0"
  by (simp add: zero_as_one_def)

lemma nanavg_elem_both:
  "nanavg_elem (Some x) (Some y) wa wb = Some ((x * wa + y * wb) / zero_as_one (wa + wb))"
  by (simp add: nanavg_elem_def isnan_def fadd_def fmul_def fdiv_def fl2_def)

lemma nanavg_elem_only_a: "nanavg_elem (Some x) None wa wb = Some x"
  by (simp add: nanavg_elem_def isnan_def fadd_def fmul_def fdiv_def fl2_def)

lemma nanavg_elem_only_b: "nanavg_elem None b wa wb = b"
  by (simp add: nanavg_elem_def isnan_def fadd_def fmul_def fdiv_def fl2_def)

lemma length_nanavg_vectors:
  "length b = length a \<Longrightarrow> length wa = length a \<Longrightarrow> length wb = length a \<Longrightarrow>
   length (nanavg_vectors a b (PerElem wa) (PerElem wb)) = length a"
  by (simp add: nanavg_vectors_def)

lemma nth_nanavg_vectors:
  "length b = length a \<Longrightarrow> length wa = length a \<Longrightarrow> length wb = length a \<Longrightarrow> i < length a \<Longrightarrow>
   nanavg_vectors a b (PerElem wa) (PerElem wb) ! i = nanavg_elem (a ! i) (b ! i) (wa ! i) (wb ! i)"
  by (simp add: nanavg_vectors_def)

lemma nanavg_vectors_scalar:
  "length b = length a \<Longrightarrow>
   nanavg_vectors a b (Scalar wa) (Scalar wb) = map (\<lambda>(ai, bi). nanavg_elem ai bi wa wb) (zip a b)"
  by (induction a arbitrary: b)
     (auto simp: nanavg_vectors_def length_Suc_conv)

lemma nth_nanavg_vectors_gen:
  assumes "length b = length a" "length (broadcast (length a) wa) = length a"
    "length (broadcast (length a) wb) = length a" "i < length a"
  shows "nanavg_vectors a b wa wb ! i =
         nanavg_elem (a ! i) (b ! i) (broadcast (length a) wa ! i) (broadcast (length a) wb ! i)"
  using assms by (simp add: nanavg_vectors_def)

text \<open>
  Claim C9. \<open>nanavg_vectors\<close> works position by position, with the weights
  broadcast to the length of \<open>a\<close>: where both inputs are present the result is the
  weighted average \<open>(a*wa + b*wb) / (wa+wb)\<close>, the divisor being 1 when \<open>wa+wb = 0\<close>;
  where only one input is present the result is that input's value, whatever the
  weights; where neither is present it is NaN. The divisor \<open>zero_as_one (wa+wb)\<close> is
  never 0, and \<open>nanavg_vectors([NaN,2], [5,NaN], 1, 1) = [5,2]\<close>.
\<close>

theorem nanavg_vectors_elementwise:
  assumes "length b = length a"
    and "length (broadcast (length a) wa) = length a"
    and "length (broadcast (length a) wb) = length a"
    and "i < length a"
  shows "length (nanavg_vectors a b wa wb) = length a \<and>
    (\<forall>x y. a ! i = Some x \<and> b ! i = Some y \<longrightarrow>
       nanavg_vectors a b wa wb ! i =
         Some ((x * (broadcast (length a) wa ! i) + y * (broadcast (length a) wb ! i)) /
               (if broadcast (length a) wa ! i + broadcast (length a) wb ! i = 0 then 1
                else broadcast (length a) wa ! i + broadcast (length a) wb ! i))) \<and>
    (\<forall>x. a ! i = Some x \<and> b ! i = None \<longrightarrow> nanavg_vectors a b wa wb ! i = Some x) \<and>
    (\<forall>y. a ! i = None \<and> b ! i = Some y \<longrightarrow> nanavg_vectors a b wa wb ! i = Some y) \<and>
    (a ! i = None \<and> b ! i = None \<longrightarrow> nanavg_vectors a b wa wb ! i = None) \<and>
    (\<forall>w. zero_as_one w \<noteq> 0) \<and>
    nanavg_vectors [None, Some 2] [Some 5, None] (Scalar 1) (Scalar 1) = [Some 5, Some 2]"
proof -
  have len: "length (nanavg_vectors a b wa wb) = length a"
    using assms by (simp add: nanavg_vectors_def)
  have nth: "nanavg_vectors a b wa wb ! i =
         nanavg_elem (a ! i) (b ! i) (broadcast (length a) wa ! i) (broadcast (length a) wb ! i)"
    using assms by (rule nth_nanavg_vectors_gen)
  have ex: "nanavg_vectors [None, Some 2] [Some 5, None] (Scalar 1) (Scalar 1) = [Some 5, Some 2]"
    by (simp add: nanavg_vectors_def nanavg_elem_only_a nanavg_elem_only_b)
  show ?thesis
    unfolding nth
    using len ex
    by (auto simp: nanavg_elem_both nanavg_elem_only_a nanavg_elem_only_b zero_as_one_def nth)
qed

theorem nanavg_vectors_elementwise_witness:
  "length [Some 5, None, Some 8, None :: real option] = length [None, Some 2, Some 4, None :: real option] \<and>
   length (broadcast (length [None, Some 2, Some 4, None :: real option]) (PerElem [1, 1, 1, 3])) = 4 \<and>
   length (broadcast (length [None, Some 2, Some 4, None :: real option]) (Scalar 3)) = 4 \<and>
   (2::nat) < length [None, Some 2, Some 4, None :: real option] \<and>
   nanavg_vectors [None, Some 2, Some 4, None] [Some 5, None, Some 8, None] (PerElem [1, 1, 1, 3]) (Scalar 3) ! 2
     = Some 7"
  using nanavg_vectors_elementwise [of "[Some 5, None, Some 8, None]" "[None, Some 2, Some 4, None]"
      "PerElem [1, 1, 1, 3]" "Scalar 3" 2]
  by (simp add: numeral_eq_Suc)

section \<open>The leaf partitioner partitions the samples of each tree\<close>

lemma set_np_unique [simp]: "set (np_unique xs) = set xs"
  by (simp add: np_unique_def)

lemma distinct_np_unique [simp]: "distinct (np_unique xs)"
  by (simp add: np_unique_def)

lemma sorted_np_unique [simp]: "sorted (np_unique xs)"
  by (simp add: np_unique_def)

lemma set_np_where: "set (np_where cond) = {i. i < length cond \<and> cond ! i}"
  by (auto simp: np_where_def)

lemma distinct_np_where: "distinct (np_where cond)"
  by (simp add: np_where_def)

lemma length_sample_idxs_in_leaves:
  "length (sample_idxs_in_leaves ids) = length (np_unique ids)"
  by (simp add: sample_idxs_in_leaves_def)

lemma set_nth_sample_idxs_in_leaves:
  "k < length (np_unique ids) \<Longrightarrow>
   set (sample_idxs_in_leaves ids ! k) = {i. i < length ids \<and> ids ! i = np_unique ids ! k}"
  by (auto simp: sample_idxs_in_leaves_def set_np_where)

lemma sample_idxs_in_leaves_disjoint:
  assumes "k < length (sample_idxs_in_leaves ids)" "l < length (sample_idxs_in_leaves ids)" "k \<noteq> l"
  shows "set (sample_idxs_in_leaves ids ! k) \<inter> set (sample_idxs_in_leaves ids ! l) = {}"
proof -
  have "np_unique ids ! k \<noteq> np_unique ids ! l"
    using assms by (simp add: length_sample_idxs_in_leaves nth_eq_iff_index_eq)
  then show ?thesis
    using assms by (auto simp: length_sample_idxs_in_leaves set_nth_sample_idxs_in_leaves)
qed

lemma sample_idxs_in_leaves_cover:
  assumes "i < length ids"
  shows "\<exists>k < length (sample_idxs_in_leaves ids). i \<in> set (sample_idxs_in_leaves ids ! k)"
proof -
  have "ids ! i \<in> set (np_unique ids)" using assms by simp
  then obtain k where "k < length (np_unique ids)" "np_unique ids ! k = ids ! i"
    by (metis in_set_conv_nth)
  then show ?thesis
    using assms by (auto simp: length_sample_idxs_in_leaves set_nth_sample_idxs_in_leaves)
qed

lemma sample_idxs_in_leaves_range:
  assumes "k < length (sample_idxs_in_leaves ids)"
  shows "set (sample_idxs_in_leaves ids ! k) \<subseteq> {0..<length ids}"
    and "sample_idxs_in_leaves ids ! k \<noteq> []"
    and "distinct (sample_idxs_in_leaves ids ! k)"
proof -
  have k: "k < length (np_unique ids)" using assms by (simp add: length_sample_idxs_in_leaves)
  show "set (sample_idxs_in_leaves ids ! k) \<subseteq> {0..<length ids}"
    using k by (auto simp: set_nth_sample_idxs_in_leaves)
  have "np_unique ids ! k \<in> set ids" using k by (metis nth_mem set_np_unique)
  then obtain i where "i < length ids" "ids ! i = np_unique ids ! k"
    by (auto simp: in_set_conv_nth)
  then have "i \<in> set (sample_idxs_in_leaves ids ! k)"
    using k by (simp add: set_nth_sample_idxs_in_leaves)
  then show "sample_idxs_in_leaves ids ! k \<noteq> []" by auto
  show "distinct (sample_idxs_in_leaves ids ! k)"
    using k by (simp add: sample_idxs_in_leaves_def distinct_np_where)
qed

lemma leaf_samples_by_tree:
  "leaf_samples rf X_not_col =
   concat (map (\<lambda>t. sample_idxs_in_leaves (map (\<lambda>row. rf_apply rf row t) X_not_col))
             [0..<n_estimators rf])"
  unfolding leaf_samples_def Let_def
  by (rule arg_cong [where f = concat], rule map_cong) simp_all

text \<open>
  Claim C10. \<open>leaf_samples\<close> is the concatenation, over the trees, of the groups of
  each tree; and for every tree the groups emitted for it are pairwise disjoint, their
  union is the full index set \<open>{0..<n}\<close>, every sample index lies in exactly one of
  them, and no group lists an index twice.
\<close>

theorem leaf_samples_partition:
  "leaf_samples rf X_not_col =
     concat (map (\<lambda>t. sample_idxs_in_leaves (map (\<lambda>row. rf_apply rf row t) X_not_col))
               [0..<n_estimators rf]) \<and>
   (\<forall>t < n_estimators rf.
      (let groups = sample_idxs_in_leaves (map (\<lambda>row. rf_apply rf row t) X_not_col);
           n = length X_not_col
       in (\<forall>k < length groups. \<forall>l < length groups. k \<noteq> l \<longrightarrow> set (groups ! k) \<inter> set (groups ! l) = {}) \<and>
          (\<Union>k < length groups. set (groups ! k)) = {0..<n} \<and>
          (\<forall>i < n. \<exists>!k. k < length groups \<and> i \<in> set (groups ! k)) \<and>
          (\<forall>k < length groups. distinct (groups ! k))))"
proof (intro conjI allI impI)
  show "leaf_samples rf X_not_col =
     concat (map (\<lambda>t. sample_idxs_in_leaves (map (\<lambda>row. rf_apply rf row t) X_not_col))
               [0..<n_estimators rf])"
    by (rule leaf_samples_by_tree)
next
  fix t assume "t < n_estimators rf"
  define ids where "ids = map (\<lambda>row. rf_apply rf row t) X_not_col"
  define groups where "groups = sample_idxs_in_leaves ids"
  have n: "length ids = length X_not_col" by (simp add: ids_def)
  have disj: "\<forall>k < length groups. \<forall>l < length groups. k \<noteq> l \<longrightarrow> set (groups ! k) \<inter> set (groups ! l) = {}"
    unfolding groups_def by (intro allI impI sample_idxs_in_leaves_disjoint)
  have cover: "\<forall>i < length X_not_col. \<exists>k < length groups. i \<in> set (groups ! k)"
    unfolding groups_def using sample_idxs_in_leaves_cover [of _ ids] n by simp
  have range: "\<forall>k < length groups. set (groups ! k) \<subseteq> {0..<length X_not_col}"
    unfolding groups_def using sample_idxs_in_leaves_range(1) [of _ ids] n by simp
  have un: "(\<Union>k < length groups. set (groups ! k)) = {0..<length X_not_col}"
  proof
    show "(\<Union>k < length groups. set (groups ! k)) \<subseteq> {0..<length X_not_col}"
      using range by blast
    show "{0..<length X_not_col} \<subseteq> (\<Union>k < length groups. set (groups ! k))"
      using cover by auto
  qed
  have uniq: "\<forall>i < length X_not_col. \<exists>!k. k < length groups \<and> i \<in> set (groups ! k)"
  proof (intro allI impI)
    fix i assume "i < length X_not_col"
    then obtain k where k: "k < length groups" "i \<in> set (groups ! k)" using cover by blast
    show "\<exists>!k. k < length groups \<and> i \<in> set (groups ! k)"
    proof (rule ex1I [of _ k])
      show "k < length groups \<and> i \<in> set (groups ! k)" using k by simp
    next
      fix l assume l: "l < length groups \<and> i \<in> set (groups ! l)"
      show "l = k"
      proof (rule ccontr)
        assume "l \<noteq> k"
        then have "set (groups ! l) \<inter> set (groups ! k) = {}" using disj l k by blast
        then show False using l k by blast
      qed
    qed
  qed
  have dist: "\<forall>k < length groups. distinct (groups ! k)"
    unfolding groups_def by (simp add: sample_idxs_in_leaves_range(3))
  show "let groups = sample_idxs_in_leaves (map (\<lambda>row. rf_apply rf row t) X_not_col);
           n = length X_not_col
       in (\<forall>k < length groups. \<forall>l < length groups. k \<noteq> l \<longrightarrow> set (groups ! k) \<inter> set (groups ! l) = {}) \<and>
          (\<Union>k < length groups. set (groups ! k)) = {0..<n} \<and>
          (\<forall>i < n. \<exists>!k. k < length groups \<and> i \<in> set (groups ! k)) \<and>
          (\<forall>k < length groups. distinct (groups ! k))"
    unfolding Let_def using disj un uniq dist by (simp add: groups_def ids_def)
qed


theorem leaf_samples_partition_witness:
  "(0::nat) < n_estimators \<lparr>n_estimators = 2, rf_apply = (\<lambda>(r::nat) (t::nat). if t = 0 then (if r < 13 then (7::int) else 4) else (if r = 10 \<or> r = 12 then 0 else 1))\<rparr> \<and>
   leaf_samples \<lparr>n_estimators = 2, rf_apply = (\<lambda>(r::nat) (t::nat). if t = 0 then (if r < 13 then (7::int) else 4) else (if r = 10 \<or> r = 12 then 0 else 1))\<rparr> [10, 11, 12, 13]
     = [[3], [0, 1, 2], [0, 2], [1, 3]] \<and>
   sample_idxs_in_leaves (map (\<lambda>row. rf_apply \<lparr>n_estimators = 2, rf_apply = (\<lambda>(r::nat) (t::nat). if t = 0 then (if r < 13 then (7::int) else 4) else (if r = 10 \<or> r = 12 then 0 else 1))\<rparr> row 0) [10, 11, 12, 13])
     = [[3], [0, 1, 2]] \<and>
   (\<Union>k < length [[3], [0, 1, 2::nat]]. set ([[3], [0, 1, 2]] ! k)) = {0..<length [10, 11, 12, 13::nat]}"
proof -
  let ?rf = "\<lparr>n_estimators = 2, rf_apply = (\<lambda>(r::nat) (t::nat). if t = 0 then (if r < 13 then (7::int) else 4) else (if r = 10 \<or> r = 12 then 0 else 1))\<rparr>"
  have g: "sample_idxs_in_leaves (map (\<lambda>row. rf_apply ?rf row 0) [10, 11, 12, 13]) = [[3], [0, 1, 2]]"
    by (simp add: sample_idxs_in_leaves_def np_unique_def np_where_def)
  have l: "leaf_samples ?rf [10, 11, 12, 13] = [[3], [0, 1, 2], [0, 2], [1, 3]]"
    by (simp add: leaf_samples_def sample_idxs_in_leaves_def np_unique_def np_where_def numeral_2_eq_2)
  have t: "(0::nat) < n_estimators ?rf" by simp
  have "(\<Union>k < length [[3], [0, 1, 2::nat]]. set ([[3], [0, 1, 2]] ! k)) = {0..<length [10, 11, 12, 13::nat]}"
    using leaf_samples_partition [of ?rf "[10, 11, 12, 13]", THEN conjunct2, rule_format, OF t]
    unfolding Let_def g by blast
  with g l t show ?thesis by blast
qed

section \<open>Degenerate leaves\<close>

lemma length_np_unique: "length (np_unique xs) = card (set xs)"
  by (simp add: np_unique_def length_remdups_card_conv)

lemma finite_differences_one_value:
  "card (set x) = 1 \<Longrightarrow> finite_differences x y = ([[0]], [0], length x)"
  by (simp add: finite_differences_def Let_def length_np_unique)

lemma collect_loop_skip:
  assumes one: "card (set (map (\<lambda>i. X_col ! i) samples)) = 1"
    and idx: "list_all (\<lambda>i. i < length X_col \<and> i < length y) samples"
  shows "collect_loop (samples # leaves) X_col y (xr, sl, ig) =
         collect_loop leaves X_col y (xr, sl, ig + length samples)"
proof -
  let ?leaf_x = "map (\<lambda>i. X_col ! i) samples"
  obtain v where v: "set ?leaf_x = {v}"
    using one by (metis card_1_singletonE)
  then have ne: "?leaf_x \<noteq> []" by auto
  have "Min (set ?leaf_x) - Max (set ?leaf_x) = 0" by (simp only: v Min_singleton Max_singleton diff_self)
  then have "\<bar>Min (set ?leaf_x) - Max (set ?leaf_x)\<bar> < 1 / 10 ^ 8" by simp
  then show ?thesis using ne idx by (simp add: Let_def)
qed

theorem finite_differences_degenerate_counterexample:
  "card (set [2, 2, 2 :: real]) = 1 \<and>
   finite_differences [2, 2, 2] [1, 5, 3] = ([[0]], [0], 3) \<and>
   fst (finite_differences [2, 2, 2] [1, 5, 3]) \<noteq> [] \<and>
   fst (snd (finite_differences [2, 2, 2] [1, 5, 3])) \<noteq> []"
  by (simp add: finite_differences_one_value)

text \<open>
  Claim C3, amended. For a leaf whose samples hold exactly one distinct target value,
  \<open>finite_differences\<close> reports the whole sample count as ignored but returns a
  one-entry placeholder (the row \<open>[0]\<close> and the slope \<open>0.0\<close>), not empty arrays. It is
  \<open>collect_discrete_slopes\<close> that keeps such a leaf out of the segments: its loop
  skips the leaf before calling \<open>finite_differences\<close>, leaving the collected ranges
  and slopes as they were and adding the leaf's sample count to \<open>ignored\<close>.
\<close>

theorem degenerate_leaf_ignored:
  assumes "card (set (map (\<lambda>i. X_col ! i) samples)) = 1"
    and "list_all (\<lambda>i. i < length X_col \<and> i < length y) samples"
  shows "finite_differences (map (\<lambda>i. X_col ! i) samples) (map (\<lambda>i. y ! i) samples)
           = ([[0]], [0], length samples) \<and>
         collect_loop (samples # leaves) X_col y (xr, sl, ig) =
           collect_loop leaves X_col y (xr, sl, ig + length samples)"
  using finite_differences_one_value [OF assms(1)] collect_loop_skip [OF assms] by simp

theorem degenerate_leaf_ignored_witness:
  "card (set (map (\<lambda>i. [2, 7, 2, 2 :: real] ! i) [0, 2, 3])) = 1 \<and>
   list_all (\<lambda>i. i < length [2, 7, 2, 2 :: real] \<and> i < length [1, 9, 5, 3 :: real]) [0, 2, 3] \<and>
   finite_differences (map (\<lambda>i. [2, 7, 2, 2] ! i) [0, 2, 3]) (map (\<lambda>i. [1, 9, 5, 3] ! i) [0, 2, 3])
     = ([[0]], [0], 3) \<and>
   collect_loop [[0, 2, 3]] [2, 7, 2, 2] [1, 9, 5, 3] ([], [], 0) = Inr ([], [], 3)"
proof -
  have c: "card (set (map (\<lambda>i. [2, 7, 2, 2 :: real] ! i) [0, 2, 3])) = 1" by simp
  have i: "list_all (\<lambda>i. i < length [2, 7, 2, 2 :: real] \<and> i < length [1, 9, 5, 3 :: real]) [0, 2, 3]"
    by simp
  show ?thesis
    using degenerate_leaf_ignored [OF c i, of "[]" "[]" "[]" 0] c i by simp
qed

section \<open>Cross-leaf aggregation\<close>

lemma map_upt_nth: "map (\<lambda>k. f (xs ! k)) [0..<length xs] = map f xs"
  by (rule nth_equalityI) simp_all

lemma avg_slopes_variants_agree:
  "avg_slopes_at_x_nonparallel_jit uniq_x leaf_ranges leaf_slopes =
   avg_slopes_at_x_jit uniq_x leaf_ranges leaf_slopes"
proof -
  let ?F = "\<lambda>x. map (\<lambda>i. if x < leaf_ranges ! i ! 0 \<or> leaf_ranges ! i ! 1 \<le> x
                           then None else leaf_slopes ! i) [0..<length leaf_slopes]"
  have "map (\<lambda>k. ?F (uniq_x ! k)) [0..<length uniq_x] = map ?F uniq_x"
    by (rule map_upt_nth)
  then show ?thesis
    unfolding avg_slopes_at_x_nonparallel_jit_def avg_slopes_at_x_jit_def Let_def
    by simp
qed

lemma length_avg_slopes:
  "length (fst (avg_slopes_at_x_jit uniq_x leaf_ranges leaf_slopes)) = length uniq_x"
  "length (snd (avg_slopes_at_x_jit uniq_x leaf_ranges leaf_slopes)) = length uniq_x"
  by (simp_all add: avg_slopes_at_x_jit_def Let_def)

text \<open>The row of the matrix \<open>slopes\<close> for the value \<open>x\<close>.\<close>

lemma avg_slopes_uncovered:
  assumes k: "k < length uniq_x"
    and un: "\<forall>i < length leaf_slopes.
               \<not> (leaf_ranges ! i ! 0 \<le> uniq_x ! k \<and> uniq_x ! k < leaf_ranges ! i ! 1)"
  shows "fst (avg_slopes_at_x_jit uniq_x leaf_ranges leaf_slopes) ! k = None"
    and "snd (avg_slopes_at_x_jit uniq_x leaf_ranges leaf_slopes) ! k = 0"
proof -
  let ?row = "map (\<lambda>i. (let xr = leaf_ranges ! i; slope = leaf_slopes ! i
                       in if uniq_x ! k < xr ! 0 \<or> uniq_x ! k \<ge> xr ! 1 then None else slope))
                [0..<length leaf_slopes]"
  have "\<forall>i < length leaf_slopes. ?row ! i = None"
    using un by (force simp: Let_def)
  then have row: "?row = replicate (length leaf_slopes) None"
    by (intro nth_equalityI) simp_all
  have nn: "length (filter isnan ?row) = length leaf_slopes"
    unfolding row by (simp add: isnan_def)
  show "fst (avg_slopes_at_x_jit uniq_x leaf_ranges leaf_slopes) ! k = None"
    using k nn by (simp add: avg_slopes_at_x_jit_def Let_def)
  show "snd (avg_slopes_at_x_jit uniq_x leaf_ranges leaf_slopes) ! k = 0"
    using k nn by (simp add: avg_slopes_at_x_jit_def Let_def)
qed


subsection \<open>The segments that \<open>collect_discrete_slopes\<close> gathers\<close>

lemma length_np_diff: "length (np_diff xs) = length xs - 1"
  by (simp add: np_diff_def)

lemma finite_differences_segments:
  assumes "length (np_unique x) \<noteq> 1"
    and "finite_differences x y = (xr, sl, ig)"
  shows "length xr = length sl" and "\<forall>r \<in> set xr. r ! 1 \<in> set x" and "ig = 0"
proof -
  let ?u = "np_unique x"
  have xr: "xr = map (\<lambda>(a, b). [a, b]) (zip ?u (tl ?u))"
    and sl: "length sl = length ?u - 1" and "ig = 0"
    using assms by (auto simp: finite_differences_def Let_def length_np_diff)
  show "ig = 0" by fact
  show "length xr = length sl" by (simp add: xr sl)
  show "\<forall>r \<in> set xr. r ! 1 \<in> set x"
  proof
    fix r assume "r \<in> set xr"
    then obtain a b where ab: "(a, b) \<in> set (zip ?u (tl ?u))" "r = [a, b]"
      by (auto simp: xr)
    then have "b \<in> set (tl ?u)" by (meson set_zip_rightD)
    then have "b \<in> set ?u" by (cases ?u) simp_all
    then show "r ! 1 \<in> set x" by (simp add: ab)
  qed
qed

lemma not_close_not_degenerate:
  assumes "\<not> \<bar>Min (set xs) - Max (set xs)\<bar> < 1 / 10 ^ 8"
  shows "length (np_unique (xs::real list)) \<noteq> 1"
proof
  assume "length (np_unique xs) = 1"
  then have "card (set xs) = 1" by (simp add: np_unique_def length_remdups_card_conv)
  then obtain v where "set xs = {v}" by (metis card_1_singletonE)
  then have "Min (set xs) - Max (set xs) = 0" by (simp only: Min_singleton Max_singleton diff_self)
  with assms show False by simp
qed

lemma collect_loop_segs_ok:
  "collect_loop leaves X_col y acc = Inr res \<Longrightarrow> segs_ok X_col acc \<Longrightarrow> segs_ok X_col res"
proof (induction leaves X_col y acc rule: collect_loop.induct)
  case (1 X_col y acc)
  then show ?case by simp
next
  case (2 samples leaves X_col y xr sl ig)
  let ?leaf_x = "map (\<lambda>i. X_col ! i) samples"
  let ?leaf_y = "map (\<lambda>i. y ! i) samples"
  from "2.prems"(1) have idx: "list_all (\<lambda>i. i < length X_col \<and> i < length y) samples"
    by (auto split: if_splits)
  from "2.prems"(1) idx have ne: "?leaf_x \<noteq> []"
    by (auto simp: Let_def split: if_splits)
  have sub: "set ?leaf_x \<subseteq> set X_col"
    using idx by (auto simp: list_all_iff)
  show ?case
  proof (cases "\<bar>Min (set ?leaf_x) - Max (set ?leaf_x)\<bar> < 1 / 10 ^ 8")
    case True
    with "2.prems" idx ne have "collect_loop leaves X_col y (xr, sl, ig + length ?leaf_x) = Inr res"
      by (simp add: Let_def)
    moreover have "segs_ok X_col (xr, sl, ig + length ?leaf_x)"
      using "2.prems"(2) by (simp add: segs_ok_def)
    ultimately show ?thesis
      using "2.IH"(1) [OF _ refl refl _ True] idx ne by simp
  next
    case False
    obtain xr' sl' ig' where fd: "finite_differences ?leaf_x ?leaf_y = (xr', sl', ig')"
      by (cases "finite_differences ?leaf_x ?leaf_y") auto
    have nd: "length (np_unique ?leaf_x) \<noteq> 1" using False by (rule not_close_not_degenerate)
    note seg = finite_differences_segments [OF nd fd]
    from "2.prems"(1) idx ne False fd
    have run: "collect_loop leaves X_col y (xr @ xr', sl @ sl', ig + ig') = Inr res"
      by (simp add: Let_def)
    have "segs_ok X_col (xr @ xr', sl @ sl', ig + ig')"
      using "2.prems"(2) seg sub by (auto simp: segs_ok_def list_all_iff)
    then show ?thesis
      using "2.IH"(2) [OF _ refl refl ne False fd [symmetric] refl run] idx by simp
  qed
qed

lemma collect_discrete_slopes_segments:
  assumes "collect_discrete_slopes rf X_col X_not_col y = Inr (xr, sl, ig)"
  shows "length xr = length sl" and "\<forall>r \<in> set xr. r ! 1 \<in> set X_col"
proof -
  have "segs_ok X_col ([], [], 0)" by (simp add: segs_ok_def)
  then have "segs_ok X_col (xr, sl, ig)"
    using assms collect_loop_segs_ok unfolding collect_discrete_slopes_def Let_def by blast
  then show "length xr = length sl" and "\<forall>r \<in> set xr. r ! 1 \<in> set X_col"
    by (simp_all add: segs_ok_def list_all_iff)
qed

lemma np_unique_last_greatest:
  assumes "x \<in> set xs"
  shows "x \<le> last (np_unique xs)"
proof -
  let ?u = "np_unique xs"
  have "x \<in> set ?u" using assms by simp
  then obtain i where i: "i < length ?u" "?u ! i = x" by (metis in_set_conv_nth)
  then have ne: "?u \<noteq> []" by auto
  have "?u ! i \<le> ?u ! (length ?u - 1)"
    using i by (intro sorted_nth_mono) simp_all
  then show ?thesis using i ne by (simp add: last_conv_nth)
qed


text \<open>
  Claim C7. At a unique x value that lies in no segment's half-open interval
  \<open>[x_lo, x_hi)\<close>, both aggregation functions give NaN (not a number, so not 0) and the
  count 0. For the segments that \<open>collect_discrete_slopes\<close> gathers from the leaves,
  whose right ends are values of the column, the largest unique x value is such a
  position: its aggregated slope is NaN and its count is 0.
\<close>

theorem uncovered_x_is_no_evidence:
  "(\<forall>k < length uniq_x.
      (\<forall>i < length leaf_slopes.
          \<not> (leaf_ranges ! i ! 0 \<le> uniq_x ! k \<and> uniq_x ! k < leaf_ranges ! i ! 1)) \<longrightarrow>
      fst (avg_slopes_at_x_jit uniq_x leaf_ranges leaf_slopes) ! k = None \<and>
      snd (avg_slopes_at_x_jit uniq_x leaf_ranges leaf_slopes) ! k = 0 \<and>
      fst (avg_slopes_at_x_nonparallel_jit uniq_x leaf_ranges leaf_slopes) ! k = None \<and>
      snd (avg_slopes_at_x_nonparallel_jit uniq_x leaf_ranges leaf_slopes) ! k = 0) \<and>
   (collect_discrete_slopes rf X_col X_not_col y = Inr (xr, sl, ig) \<and> X_col \<noteq> [] \<longrightarrow>
      last (fst (avg_slopes_at_x_jit (np_unique X_col) xr (map Some sl))) = None \<and>
      last (snd (avg_slopes_at_x_jit (np_unique X_col) xr (map Some sl))) = 0 \<and>
      last (fst (avg_slopes_at_x_nonparallel_jit (np_unique X_col) xr (map Some sl))) = None \<and>
      last (snd (avg_slopes_at_x_nonparallel_jit (np_unique X_col) xr (map Some sl))) = 0)"
proof (intro conjI allI impI)
  fix k
  assume "k < length uniq_x"
    and "\<forall>i < length leaf_slopes.
          \<not> (leaf_ranges ! i ! 0 \<le> uniq_x ! k \<and> uniq_x ! k < leaf_ranges ! i ! 1)"
  note un = avg_slopes_uncovered [OF this]
  show "fst (avg_slopes_at_x_jit uniq_x leaf_ranges leaf_slopes) ! k = None"
    and "snd (avg_slopes_at_x_jit uniq_x leaf_ranges leaf_slopes) ! k = 0"
    and "fst (avg_slopes_at_x_nonparallel_jit uniq_x leaf_ranges leaf_slopes) ! k = None"
    and "snd (avg_slopes_at_x_nonparallel_jit uniq_x leaf_ranges leaf_slopes) ! k = 0"
    by (simp_all only: avg_slopes_variants_agree un)
next
  assume a: "collect_discrete_slopes rf X_col X_not_col y = Inr (xr, sl, ig) \<and> X_col \<noteq> []"
  let ?u = "np_unique X_col"
  let ?k = "length ?u - 1"
  have ne: "?u \<noteq> []" using a by (metis set_np_unique set_empty)
  then have k: "?k < length ?u" by simp
  have lastk: "?u ! ?k = last ?u" using ne by (simp add: last_conv_nth)
  note seg = collect_discrete_slopes_segments [OF a [THEN conjunct1]]
  have un: "\<forall>i < length (map Some sl). \<not> (xr ! i ! 0 \<le> ?u ! ?k \<and> ?u ! ?k < xr ! i ! 1)"
  proof (intro allI impI)
    fix i assume "i < length (map Some sl)"
    then have "xr ! i \<in> set xr" using seg(1) by simp
    then have "xr ! i ! 1 \<in> set X_col" using seg(2) by blast
    then have "xr ! i ! 1 \<le> last ?u" by (rule np_unique_last_greatest)
    then have "xr ! i ! 1 \<le> ?u ! ?k" by (simp only: lastk)
    then show "\<not> (xr ! i ! 0 \<le> ?u ! ?k \<and> ?u ! ?k < xr ! i ! 1)"
      by linarith
  qed
  note res = avg_slopes_uncovered [OF k un]
  let ?avg = "avg_slopes_at_x_jit ?u xr (map Some sl)"
  have len: "length (fst ?avg) = length ?u" "length (snd ?avg) = length ?u"
    by (rule length_avg_slopes)+
  have ne1: "fst ?avg \<noteq> []" and ne2: "snd ?avg \<noteq> []"
    using len ne by (metis length_0_conv)+
  have l1: "last (fst ?avg) = None"
    using res(1) by (simp only: last_conv_nth [OF ne1] len)
  have l2: "last (snd ?avg) = 0"
    using res(2) by (simp only: last_conv_nth [OF ne2] len)
  show "last (fst (avg_slopes_at_x_jit ?u xr (map Some sl))) = None"
    and "last (snd (avg_slopes_at_x_jit ?u xr (map Some sl))) = 0"
    and "last (fst (avg_slopes_at_x_nonparallel_jit ?u xr (map Some sl))) = None"
    and "last (snd (avg_slopes_at_x_nonparallel_jit ?u xr (map Some sl))) = 0"
    by (simp_all only: avg_slopes_variants_agree l1 l2)
qed


theorem uncovered_x_is_no_evidence_witness:
  "(2::nat) < length [1, 2, 3, 4 :: real] \<and>
   list_all (\<lambda>i. \<not> ([[1, 2], [2, 3]] ! i ! 0 \<le> [1, 2, 3, 4 :: real] ! 2 \<and>
                     [1, 2, 3, 4 :: real] ! 2 < [[1, 2], [2, 3]] ! i ! 1)) [0, 1] \<and>
   fst (avg_slopes_at_x_jit [1, 2, 3, 4] [[1, 2], [2, 3]] [Some 1, Some 3]) ! 2 = None \<and>
   snd (avg_slopes_at_x_jit [1, 2, 3, 4] [[1, 2], [2, 3]] [Some 1, Some 3]) ! 2 = 0 \<and>
   collect_discrete_slopes
      \<lparr>n_estimators = 1, rf_apply = (\<lambda>(r::nat) (t::nat). if r < 3 then (0::int) else 1)\<rparr>
      [1, 2, 3, 4] [0, 1, 2, 3] [0, 1, 4, 7] = Inr ([[1, 2], [2, 3]], [1, 3], 1) \<and>
   [1, 2, 3, 4 :: real] \<noteq> [] \<and>
   last (fst (avg_slopes_at_x_jit (np_unique [1, 2, 3, 4]) [[1, 2], [2, 3]] (map Some [1, 3]))) = None \<and>
   last (snd (avg_slopes_at_x_jit (np_unique [1, 2, 3, 4]) [[1, 2], [2, 3]] (map Some [1, 3]))) = 0"
proof -
  let ?rf = "\<lparr>n_estimators = 1, rf_apply = (\<lambda>(r::nat) (t::nat). if r < 3 then (0::int) else 1)\<rparr>"
  note inst = uncovered_x_is_no_evidence [where uniq_x = "[1, 2, 3, 4]"
      and leaf_ranges = "[[1, 2], [2, 3]]" and leaf_slopes = "[Some 1, Some 3]"
      and rf = ?rf and X_col = "[1, 2, 3, 4]" and X_not_col = "[0, 1, 2, 3]" and y = "[0, 1, 4, 7]"
      and xr = "[[1, 2], [2, 3]]" and sl = "[1, 3]" and ig = 1]
  have k: "(2::nat) < length [1, 2, 3, 4 :: real]" by simp
  have un: "list_all (\<lambda>i. \<not> ([[1, 2], [2, 3]] ! i ! 0 \<le> [1, 2, 3, 4 :: real] ! 2 \<and>
                     [1, 2, 3, 4 :: real] ! 2 < [[1, 2], [2, 3]] ! i ! 1)) [0, 1]"
    by simp
  then have un': "\<forall>i < length [Some 1, Some (3::real)].
      \<not> ([[1, 2], [2, 3]] ! i ! 0 \<le> [1, 2, 3, 4 :: real] ! 2 \<and>
         [1, 2, 3, 4 :: real] ! 2 < [[1, 2], [2, 3]] ! i ! 1)"
    by (simp add: less_Suc_eq)
  have c: "collect_discrete_slopes ?rf [1, 2, 3, 4] [0, 1, 2, 3] [0, 1, 4, 7]
             = Inr ([[1, 2], [2, 3]], [1, 3], 1)"
    by code_simp
  have ne: "[1, 2, 3, 4 :: real] \<noteq> []" by simp
  from inst [THEN conjunct1, rule_format, OF k un' [rule_format]] inst [THEN conjunct2, rule_format, OF conjI [OF c ne]]
  show ?thesis using k un c ne by blast
qed

section \<open>Integration of the slopes\<close>

lemma cumsum_from_nth:
  "i < length xs \<Longrightarrow> cumsum_from acc xs ! i = acc + sum_list (take (Suc i) xs)"
proof (induction xs arbitrary: acc i)
  case Nil
  then show ?case by simp
next
  case (Cons x xs)
  then show ?case by (cases i) (simp_all add: add.assoc)
qed

lemma length_cumsum_from [simp]: "length (cumsum_from acc xs) = length xs"
  by (induction xs arbitrary: acc) simp_all

lemma sum_list_take_zero:
  "k \<le> length xs \<Longrightarrow> (\<forall>j < k. xs ! j = (0::real)) \<Longrightarrow> sum_list (take k xs) = 0"
proof (induction xs arbitrary: k)
  case Nil
  then show ?case by simp
next
  case (Cons x xs)
  show ?case
  proof (cases k)
    case 0
    then show ?thesis by simp
  next
    case (Suc k')
    have "x = 0" using Cons.prems(2) Suc by (metis nth_Cons_0 zero_less_Suc)
    moreover have "sum_list (take k' xs) = 0"
    proof (rule Cons.IH)
      show "k' \<le> length xs" using Cons.prems(1) Suc by simp
      show "\<forall>j < k'. xs ! j = 0"
        using Cons.prems(2) Suc by (metis Suc_less_eq nth_Cons_Suc)
    qed
    ultimately show ?thesis using Suc by simp
  qed
qed

text \<open>The running sum stays at 0 as long as every delta so far is NaN.\<close>

lemma nancumsum_prefix_nan:
  assumes "k \<le> length ds" and "\<forall>j < k. ds ! j = None"
  shows "(0 # np_nancumsum ds) ! k = 0"
proof (cases k)
  case 0
  then show ?thesis by simp
next
  case (Suc i)
  then have i: "i < length ds" using assms(1) by simp
  have "\<forall>j < k. map nan_to_zero ds ! j = 0"
    using assms by (simp add: nan_to_zero_def)
  then have "sum_list (take k (map nan_to_zero ds)) = 0"
    using assms(1) by (intro sum_list_take_zero) simp_all
  then show ?thesis
    using i Suc by (simp add: np_nancumsum_def cumsum_from_nth)
qed

lemma filter_upt_first:
  assumes "filter P [0..<m] = i0 # rest"
  shows "P i0" and "i0 < m" and "\<forall>j < i0. \<not> P j"
proof -
  from assms obtain us vs where
    split: "[0..<m] = us @ i0 # vs" and nP: "\<forall>u \<in> set us. \<not> P u" and P: "P i0"
    by (auto simp: filter_eq_Cons_iff)
  show "P i0" by fact
  have len: "length us < m"
    using arg_cong [OF split, of length] by simp
  have "[0..<m] ! length us = i0" by (simp add: split)
  then have i0: "i0 = length us" using len by simp
  then show "i0 < m" using len by simp
  have "us = take (length us) [0..<m]" by (simp add: split)
  then have "us = [0..<length us]" using len by (simp add: take_upt)
  then have "set us = {0..<i0}" using i0 by (metis atLeastLessThan_upt)
  then show "\<forall>j < i0. \<not> P j" using nP by auto
qed

lemma integrate_slopes_first_zero:
  assumes run: "integrate_slopes ux s = Inr (dxs, px, py)"
    and len: "length s = length ux"
  shows "length py = length px" and "px \<noteq> [] \<longrightarrow> hd py = 0"
proof -
  let ?ds = "map (\<lambda>(s, d). fmul s (Some d)) (zip (butlast s) (np_diff ux))"
  let ?full = "0 # np_nancumsum ?ds"
  let ?P = "\<lambda>i. \<not> (isnan (tl s ! i) \<and> isnan (butlast s ! i))"
  let ?idx0 = "map Suc (filter ?P [0..<length s - 1])"
  let ?idx = "if \<not> isnan (s ! 0) then 0 # ?idx0 else ?idx0"
  have ne: "s \<noteq> []" using run by (auto simp: integrate_slopes_def Let_def split: if_splits)
  have w: "np_where (map (\<lambda>(a, b). \<not> (isnan a \<and> isnan b)) (zip (tl s) (butlast s)))
             = filter ?P [0..<length s - 1]"
    by (auto simp: np_where_def intro!: filter_cong)
  have px: "px = map (\<lambda>i. ux ! i) ?idx" and py: "py = map (\<lambda>i. ?full ! i) ?idx"
    using run ne unfolding integrate_slopes_def Let_def w by (auto split: if_splits)
  show "length py = length px" by (simp add: px py)
  have lds: "length ?ds = length s - 1" by (simp add: np_diff_def len)
  show "px \<noteq> [] \<longrightarrow> hd py = 0"
  proof
    assume "px \<noteq> []"
    then have idx_ne: "?idx \<noteq> []" by (auto simp: px)
    have hd: "hd py = ?full ! hd ?idx" using idx_ne by (simp add: py hd_map)
    show "hd py = 0"
    proof (cases "isnan (s ! 0)")
      case False
      then show ?thesis using hd by simp
    next
      case True
      then have f_ne: "filter ?P [0..<length s - 1] \<noteq> []" using idx_ne by simp
      then obtain i0 rest where f: "filter ?P [0..<length s - 1] = i0 # rest"
        by (cases "filter ?P [0..<length s - 1]") auto
      note first = filter_upt_first [OF f]
      have hdidx: "hd ?idx = Suc i0" using True f by simp
      have nan: "s ! j = None" if "j \<le> i0" for j
      proof (cases j)
        case 0
        then show ?thesis using True by (simp add: isnan_def)
      next
        case (Suc j')
        then have "j' < i0" using that by simp
        then have "isnan (tl s ! j')" using first(3) by blast
        moreover have "j' < length (tl s)" using \<open>j' < i0\<close> first(2) by simp
        ultimately show ?thesis using Suc by (simp add: nth_tl isnan_def)
      qed
      have "\<forall>j < Suc i0. ?ds ! j = None"
      proof (intro allI impI)
        fix j assume j: "j < Suc i0"
        then have jl: "j < length s - 1" using first(2) by simp
        have "butlast s ! j = None" using nan [of j] j jl by (simp add: nth_butlast)
        then show "?ds ! j = None"
          using jl by (simp add: np_diff_def len fmul_def fl2_def)
      qed
      moreover have "Suc i0 \<le> length ?ds" using first(2) lds by simp
      ultimately have "?full ! Suc i0 = 0" by (rule nancumsum_prefix_nan [rotated])
      then show ?thesis using hd hdidx by simp
    qed
  qed
qed


subsection \<open>What \<open>partial_dependence\<close> returns\<close>

lemma partial_dependence_flag:
  "partial_dependence rf X y m pj = partial_dependence rf X y m True"
  unfolding partial_dependence_def avg_slopes_variants_agree if_cancel ..

lemma partial_dependence_Inr:
  assumes "partial_dependence rf X y m pj = Inr r"
  obtains xr sl ig where
    "collect_discrete_slopes rf (map (\<lambda>row. round10 (fst row)) X) (map snd X) y = Inr (xr, sl, ig)"
    "res_slope_counts_at_x r =
       snd (avg_slopes_at_x_jit (np_unique (map (\<lambda>row. round10 (fst row)) X)) xr (map Some sl))"
    "res_slope_at_x r =
       map (\<lambda>(c, s). if int c \<ge> (if m \<le> 0 then 1 else m) then s else None)
         (zip (snd (avg_slopes_at_x_jit (np_unique (map (\<lambda>row. round10 (fst row)) X)) xr (map Some sl)))
              (fst (avg_slopes_at_x_jit (np_unique (map (\<lambda>row. round10 (fst row)) X)) xr (map Some sl))))"
    "integrate_slopes (np_unique (map (\<lambda>row. round10 (fst row)) X)) (res_slope_at_x r)
       = Inr (res_dx r, res_pdpx r, res_pdpy r)"
    "res_leaf_xranges r = xr" "res_leaf_slopes r = sl" "res_ignored r = ig"
proof -
  let ?X_col = "map (\<lambda>row. round10 (fst row)) X"
  from assms obtain xr sl ig where
    c: "collect_discrete_slopes rf ?X_col (map snd X) y = Inr (xr, sl, ig)"
    unfolding partial_dependence_def Let_def
    by (cases "collect_discrete_slopes rf ?X_col (map snd X) y") auto
  let ?avg = "avg_slopes_at_x_jit (np_unique ?X_col) xr (map Some sl)"
  let ?s = "map (\<lambda>(c, s). if int c \<ge> (if m \<le> 0 then 1 else m) then s else None)
              (zip (snd ?avg) (fst ?avg))"
  from assms c obtain dxs px py where
    i: "integrate_slopes (np_unique ?X_col) ?s = Inr (dxs, px, py)"
    and r: "r = \<lparr>res_leaf_xranges = xr, res_leaf_slopes = sl,
                 res_slope_counts_at_x = snd ?avg, res_dx = dxs,
                 res_slope_at_x = ?s, res_pdpx = px, res_pdpy = py, res_ignored = ig\<rparr>"
    unfolding partial_dependence_def Let_def avg_slopes_variants_agree
    by (cases "integrate_slopes (np_unique ?X_col) ?s")
       (auto simp: case_prod_beta split: if_splits)
  show thesis
    by (rule that [OF c]) (simp_all add: r i)
qed

lemma length_res_slope_at_x:
  assumes "partial_dependence rf X y m pj = Inr r"
  shows "length (res_slope_at_x r) = length (np_unique (map (\<lambda>row. round10 (fst row)) X))"
    and "length (res_slope_counts_at_x r) = length (res_slope_at_x r)"
  using assms by (auto elim!: partial_dependence_Inr simp: length_avg_slopes)


subsection \<open>\<open>partial_dependence\<close> returns\<close>

lemma collect_loop_total:
  assumes "\<forall>l \<in> set leaves. l \<noteq> [] \<and> list_all (\<lambda>i. i < length X_col \<and> i < length y) l"
  shows "\<exists>res. collect_loop leaves X_col y acc = Inr res"
  using assms
proof (induction leaves arbitrary: acc)
  case Nil
  show ?case by (cases acc) simp
next
  case (Cons l leaves)
  obtain xr sl ig where acc: "acc = (xr, sl, ig)" by (metis prod_cases3)
  have l: "l \<noteq> []" "list_all (\<lambda>i. i < length X_col \<and> i < length y) l"
    using Cons.prems by simp_all
  have rest: "\<And>acc'. \<exists>res. collect_loop leaves X_col y acc' = Inr res"
    using Cons.IH Cons.prems by simp
  show ?case
    unfolding acc using l rest
    by (cases "finite_differences (map (\<lambda>i. X_col ! i) l) (map (\<lambda>i. y ! i) l)")
       (simp add: Let_def)
qed

lemma leaf_samples_leaves:
  assumes "l \<in> set (leaf_samples rf X_not_col)"
  shows "l \<noteq> []" and "set l \<subseteq> {0..<length X_not_col}"
proof -
  from assms obtain t where
    "l \<in> set (sample_idxs_in_leaves (map (\<lambda>row. rf_apply rf row t) X_not_col))"
    by (auto simp: leaf_samples_by_tree)
  then obtain k where
    k: "k < length (sample_idxs_in_leaves (map (\<lambda>row. rf_apply rf row t) X_not_col))"
    and l: "l = sample_idxs_in_leaves (map (\<lambda>row. rf_apply rf row t) X_not_col) ! k"
    by (metis in_set_conv_nth)
  show "l \<noteq> []" unfolding l by (rule sample_idxs_in_leaves_range(2) [OF k])
  show "set l \<subseteq> {0..<length X_not_col}"
    unfolding l using sample_idxs_in_leaves_range(1) [OF k] by simp
qed

lemma partial_dependence_returns:
  assumes "X \<noteq> []" and "length X \<le> length y"
  shows "\<exists>r. partial_dependence rf X y m pj = Inr r"
proof -
  let ?X_col = "map (\<lambda>row. round10 (fst row)) X"
  have "\<forall>l \<in> set (leaf_samples rf (map snd X)).
           l \<noteq> [] \<and> list_all (\<lambda>i. i < length ?X_col \<and> i < length y) l"
    using leaf_samples_leaves [of _ rf "map snd X"] assms(2)
    by (fastforce simp: list_all_iff)
  then obtain res where "collect_discrete_slopes rf ?X_col (map snd X) y = Inr res"
    unfolding collect_discrete_slopes_def Let_def using collect_loop_total by blast
  moreover obtain xr sl ig where "res = (xr, sl, ig)" by (metis prod_cases3)
  ultimately have c: "collect_discrete_slopes rf ?X_col (map snd X) y = Inr (xr, sl, ig)" by simp
  let ?avg = "avg_slopes_at_x_jit (np_unique ?X_col) xr (map Some sl)"
  let ?s = "map (\<lambda>(c, s). if int c \<ge> (if m \<le> 0 then 1 else m) then s else None)
              (zip (snd ?avg) (fst ?avg))"
  have "np_unique ?X_col \<noteq> []" using assms(1) by (metis set_np_unique set_empty map_is_Nil_conv)
  then have "length ?s \<noteq> 0" by (simp add: length_avg_slopes)
  then have "?s \<noteq> []" by (metis length_0_conv)
  then obtain out where "integrate_slopes (np_unique ?X_col) ?s = Inr out"
    by (simp add: integrate_slopes_def Let_def)
  moreover obtain dxs px py where "out = (dxs, px, py)" by (metis prod_cases3)
  ultimately show ?thesis
    using c unfolding partial_dependence_def Let_def avg_slopes_variants_agree
    by (simp add: case_prod_beta)
qed


subsection \<open>A run of the whole computation\<close>

text \<open>
  Four samples with x = 1, 2, 3, 4 and y = 0, 1, 4, 7; one tree puts the first three
  in one leaf and the fourth in a leaf of its own.
\<close>

lemma pd_run_min1:
  "partial_dependence
      \<lparr>n_estimators = 1, rf_apply = (\<lambda>(r::nat) (t::nat). if r < 3 then (0::int) else 1)\<rparr>
      [(1, 0), (2, 1), (3, 2), (4, 3)] [0, 1, 4, 7] 1 False =
   Inr \<lparr>res_leaf_xranges = [[1, 2], [2, 3]], res_leaf_slopes = [1, 3],
        res_slope_counts_at_x = [1, 1, 0, 0], res_dx = [1, 1, 1],
        res_slope_at_x = [Some 1, Some 3, None, None], res_pdpx = [1, 2, 3],
        res_pdpy = [0, 1, 4], res_ignored = 1\<rparr>"
  by code_simp

lemma pd_run_min5:
  "partial_dependence
      \<lparr>n_estimators = 1, rf_apply = (\<lambda>(r::nat) (t::nat). if r < 3 then (0::int) else 1)\<rparr>
      [(1, 0), (2, 1), (3, 2), (4, 3)] [0, 1, 4, 7] 5 True =
   Inr \<lparr>res_leaf_xranges = [[1, 2], [2, 3]], res_leaf_slopes = [1, 3],
        res_slope_counts_at_x = [1, 1, 0, 0], res_dx = [1, 1, 1],
        res_slope_at_x = [None, None, None, None], res_pdpx = [],
        res_pdpy = [], res_ignored = 1\<rparr>"
  by code_simp

text \<open>
  The same samples under two trees, the second of which puts the first sample apart;
  with a minimum of two slopes per x the slope at the smallest x is dropped.
\<close>

lemma pd_run_leading_nan:
  "partial_dependence
      \<lparr>n_estimators = 2, rf_apply = (\<lambda>(r::nat) (t::nat). if t = 0 then (0::int) else if r = 0 then 0 else 1)\<rparr>
      [(1, 0), (2, 1), (3, 2), (4, 3)] [0, 1, 4, 7] 2 True =
   Inr \<lparr>res_leaf_xranges = [[1, 2], [2, 3], [3, 4], [2, 3], [3, 4]], res_leaf_slopes = [1, 3, 3, 3, 3],
        res_slope_counts_at_x = [1, 2, 2, 0], res_dx = [1, 1, 1],
        res_slope_at_x = [None, Some 3, Some 3, None], res_pdpx = [2, 3, 4],
        res_pdpy = [0, 3, 6], res_ignored = 1\<rparr>"
  by code_simp

lemma np_unique_run: "np_unique (map (\<lambda>row. round10 (fst row)) [(1, 0::nat), (2, 1), (3, 2), (4, 3)]) = [1, 2, 3, 4]"
  by code_simp

subsection \<open>The first retained x\<close>

text \<open>
  Claim C2. Whenever \<open>partial_dependence\<close> returns a non-empty curve, \<open>pdpy\<close> has as
  many entries as \<open>pdpx\<close> and its first entry, the y value at the smallest retained x,
  is exactly 0.
\<close>

theorem first_retained_y_is_zero:
  assumes "partial_dependence rf X y m pj = Inr r"
    and "res_pdpx r \<noteq> []"
  shows "length (res_pdpy r) = length (res_pdpx r) \<and> hd (res_pdpy r) = 0"
proof -
  let ?u = "np_unique (map (\<lambda>row. round10 (fst row)) X)"
  have i: "integrate_slopes ?u (res_slope_at_x r) = Inr (res_dx r, res_pdpx r, res_pdpy r)"
    using assms(1) by (rule partial_dependence_Inr)
  have l: "length (res_slope_at_x r) = length ?u"
    using assms(1) by (rule length_res_slope_at_x)
  show ?thesis
    using integrate_slopes_first_zero [OF i l] assms(2) by simp
qed

theorem first_retained_y_is_zero_witness:
  "partial_dependence
      \<lparr>n_estimators = 2, rf_apply = (\<lambda>(r::nat) (t::nat). if t = 0 then (0::int) else if r = 0 then 0 else 1)\<rparr>
      [(1, 0), (2, 1), (3, 2), (4, 3)] [0, 1, 4, 7] 2 True =
   Inr \<lparr>res_leaf_xranges = [[1, 2], [2, 3], [3, 4], [2, 3], [3, 4]], res_leaf_slopes = [1, 3, 3, 3, 3],
        res_slope_counts_at_x = [1, 2, 2, 0], res_dx = [1, 1, 1],
        res_slope_at_x = [None, Some 3, Some 3, None], res_pdpx = [2, 3, 4],
        res_pdpy = [0, 3, 6], res_ignored = 1\<rparr> \<and>
   [2, 3, 4 :: real] \<noteq> [] \<and>
   length [0, 3, 6 :: real] = length [2, 3, 4 :: real] \<and> hd [0, 3, 6 :: real] = 0"
  using first_retained_y_is_zero [OF pd_run_leading_nan] pd_run_leading_nan by simp

subsection \<open>Two NaN slopes in a row\<close>

lemma integrate_two_nans:
  "integrate_slopes [1, 2, 3, 4] [Some 1, Some 3, None, None] = Inr ([1, 1, 1], [1, 2, 3], [0, 1, 4])"
  by code_simp

text \<open>
  Claim C6. For any input whose unique x values are \<open>[1,2,3,4]\<close> and whose per-x
  slopes are \<open>[1, 3, NaN, NaN]\<close>, the returned curve is \<open>pdpx = [1,2,3]\<close>,
  \<open>pdpy = [0,1,4]\<close>: the position x = 4 is dropped.
\<close>

theorem two_nan_slopes_truncate:
  assumes "partial_dependence rf X y m pj = Inr r"
    and "np_unique (map (\<lambda>row. round10 (fst row)) X) = [1, 2, 3, 4]"
    and "res_slope_at_x r = [Some 1, Some 3, None, None]"
  shows "res_pdpx r = [1, 2, 3] \<and> res_pdpy r = [0, 1, 4]"
proof -
  have "integrate_slopes (np_unique (map (\<lambda>row. round10 (fst row)) X)) (res_slope_at_x r)
          = Inr (res_dx r, res_pdpx r, res_pdpy r)"
    using assms(1) by (rule partial_dependence_Inr)
  then show ?thesis
    unfolding assms(2,3) integrate_two_nans by simp
qed

theorem two_nan_slopes_truncate_witness:
  "partial_dependence
      \<lparr>n_estimators = 1, rf_apply = (\<lambda>(r::nat) (t::nat). if r < 3 then (0::int) else 1)\<rparr>
      [(1, 0), (2, 1), (3, 2), (4, 3)] [0, 1, 4, 7] 1 False =
   Inr \<lparr>res_leaf_xranges = [[1, 2], [2, 3]], res_leaf_slopes = [1, 3],
        res_slope_counts_at_x = [1, 1, 0, 0], res_dx = [1, 1, 1],
        res_slope_at_x = [Some 1, Some 3, None, None], res_pdpx = [1, 2, 3],
        res_pdpy = [0, 1, 4], res_ignored = 1\<rparr> \<and>
   np_unique (map (\<lambda>row. round10 (fst row)) [(1, 0::nat), (2, 1), (3, 2), (4, 3)]) = [1, 2, 3, 4] \<and>
   res_pdpx \<lparr>res_leaf_xranges = [[1, 2], [2, 3]], res_leaf_slopes = [1, 3],
        res_slope_counts_at_x = [1, 1, 0, 0], res_dx = [1, 1, 1],
        res_slope_at_x = [Some 1, Some 3, None, None], res_pdpx = [1, 2, 3],
        res_pdpy = [0, 1, 4], res_ignored = 1\<rparr> = [1, 2, 3] \<and>
   res_pdpy \<lparr>res_leaf_xranges = [[1, 2], [2, 3]], res_leaf_slopes = [1, 3],
        res_slope_counts_at_x = [1, 1, 0, 0], res_dx = [1, 1, 1],
        res_slope_at_x = [Some 1, Some 3, None, None], res_pdpx = [1, 2, 3],
        res_pdpy = [0, 1, 4], res_ignored = 1\<rparr> = [0, 1, 4]"
  using two_nan_slopes_truncate [OF pd_run_min1 np_unique_run] pd_run_min1 np_unique_run by simp


subsection \<open>A minimum evidence above every count\<close>

lemma integrate_slopes_all_nan:
  assumes "integrate_slopes ux s = Inr (dxs, px, py)" and "\<forall>a \<in> set s. a = None"
  shows "px = []" and "py = []"
proof -
  have ne: "s \<noteq> []" using assms(1) by (auto simp: integrate_slopes_def Let_def split: if_splits)
  then have s0: "isnan (s ! 0)" using assms(2) by (simp add: isnan_def)
  have "np_where (map (\<lambda>(a, b). \<not> (isnan a \<and> isnan b)) (zip (tl s) (butlast s))) = []"
  proof -
    have "isnan (tl s ! x) \<and> isnan (butlast s ! x)" if "x < length s - 1" for x
    proof -
      have "tl s ! x = s ! Suc x" using that by (simp add: nth_tl)
      moreover have "butlast s ! x = s ! x" using that by (simp add: nth_butlast)
      moreover have "s ! Suc x \<in> set s" and "s ! x \<in> set s" using that by simp_all
      ultimately show ?thesis using assms(2) by (simp add: isnan_def)
    qed
    then show ?thesis
      by (auto simp: np_where_def filter_empty_conv)
  qed
  then show "px = []" and "py = []"
    using assms(1) ne s0 by (auto simp: integrate_slopes_def Let_def)
qed

lemma avg_pd_curve_empty: "avg_pd_curve n [[]] [[]] = ([], [])"
  by (simp add: avg_pd_curve_def np_unique_def)

theorem min_slopes_too_high_counterexample:
  "partial_dependence
      \<lparr>n_estimators = 1, rf_apply = (\<lambda>(r::nat) (t::nat). if r < 3 then (0::int) else 1)\<rparr>
      [(1, 0), (2, 1), (3, 2), (4, 3)] [0, 1, 4, 7] 5 True =
   Inr \<lparr>res_leaf_xranges = [[1, 2], [2, 3]], res_leaf_slopes = [1, 3],
        res_slope_counts_at_x = [1, 1, 0, 0], res_dx = [1, 1, 1],
        res_slope_at_x = [None, None, None, None], res_pdpx = [],
        res_pdpy = [], res_ignored = 1\<rparr> \<and>
   list_all (\<lambda>c. int c < 5) [1, 1, 0, 0]"
  using pd_run_min5 by simp

text \<open>
  Claim C4, amended. When \<open>min_slopes_per_x\<close> exceeds the contributing-segment count
  at every unique x, \<open>partial_dependence\<close> itself returns normally, with empty \<open>pdpx\<close>
  and \<open>pdpy\<close>. The failure is raised by its caller: \<open>plot_stratpd\<close> (one trial) ends in
  an error on such an input and returns no curve, and the error is the ValueError of
  its emptiness check when \<open>compute_importance\<close> accepts the empty curve.
\<close>

theorem min_slopes_too_high_empty_curve:
  assumes "partial_dependence rf X y m pj = Inr r"
    and "\<forall>c \<in> set (res_slope_counts_at_x r). int c < m"
  shows "res_pdpx r = [] \<and> res_pdpy r = [] \<and>
         (\<exists>e. plot_stratpd compute_importance rf X y m = Inl e) \<and>
         (\<forall>v. compute_importance (map (\<lambda>row. round10 (fst row)) X) [] [] = Inr v \<longrightarrow>
              plot_stratpd compute_importance rf X y m = Inl ValueError)"
proof -
  let ?u = "np_unique (map (\<lambda>row. round10 (fst row)) X)"
  from assms(1) obtain xr sl ig where
    cnt: "res_slope_counts_at_x r = snd (avg_slopes_at_x_jit ?u xr (map Some sl))"
    and sl: "res_slope_at_x r =
       map (\<lambda>(c, s). if int c \<ge> (if m \<le> 0 then 1 else m) then s else None)
         (zip (snd (avg_slopes_at_x_jit ?u xr (map Some sl)))
              (fst (avg_slopes_at_x_jit ?u xr (map Some sl))))"
    and i: "integrate_slopes ?u (res_slope_at_x r) = Inr (res_dx r, res_pdpx r, res_pdpy r)"
    by (rule partial_dependence_Inr)
  have "\<forall>a \<in> set (res_slope_at_x r). a = None"
  proof
    fix a assume "a \<in> set (res_slope_at_x r)"
    then obtain c s where cs: "(c, s) \<in> set (zip (res_slope_counts_at_x r)
                                  (fst (avg_slopes_at_x_jit ?u xr (map Some sl))))"
      and a: "a = (if int c \<ge> (if m \<le> 0 then 1 else m) then s else None)"
      unfolding sl cnt by auto
    have "c \<in> set (res_slope_counts_at_x r)" using cs by (rule set_zip_leftD)
    then have "int c < m" using assms(2) by blast
    then show "a = None" using a by simp
  qed
  note empty = integrate_slopes_all_nan [OF i this]
  have pd: "partial_dependence rf X y m True = Inr r"
    using assms(1) partial_dependence_flag [of rf X y m pj] by simp
  have plot: "plot_stratpd compute_importance rf X y m =
        (case compute_importance (map (\<lambda>row. round10 (fst row)) X) [] [] of
           Inl e \<Rightarrow> Inl e | Inr v \<Rightarrow> Inl ValueError)"
    by (simp add: plot_stratpd_def pd empty avg_pd_curve_empty split: sum.splits)
  show ?thesis
    using empty by (auto simp: plot split: sum.splits)
qed

theorem min_slopes_too_high_empty_curve_witness:
  "partial_dependence
      \<lparr>n_estimators = 1, rf_apply = (\<lambda>(r::nat) (t::nat). if r < 3 then (0::int) else 1)\<rparr>
      [(1, 0), (2, 1), (3, 2), (4, 3)] [0, 1, 4, 7] 5 True =
   Inr \<lparr>res_leaf_xranges = [[1, 2], [2, 3]], res_leaf_slopes = [1, 3],
        res_slope_counts_at_x = [1, 1, 0, 0], res_dx = [1, 1, 1],
        res_slope_at_x = [None, None, None, None], res_pdpx = [],
        res_pdpy = [], res_ignored = 1\<rparr> \<and>
   list_all (\<lambda>c. int c < 5) [1, 1, 0, 0] \<and>
   plot_stratpd (\<lambda>X_col pdpx pdpy. Inr (0, 0))
      \<lparr>n_estimators = 1, rf_apply = (\<lambda>(r::nat) (t::nat). if r < 3 then (0::int) else 1)\<rparr>
      [(1, 0), (2, 1), (3, 2), (4, 3)] [0, 1, 4, 7] 5 = Inl ValueError"
proof -
  let ?R = "\<lparr>res_leaf_xranges = [[1, 2], [2, 3]], res_leaf_slopes = [1, 3],
        res_slope_counts_at_x = [1, 1, 0, 0], res_dx = [1, 1, 1],
        res_slope_at_x = [None, None, None, None], res_pdpx = [],
        res_pdpy = [], res_ignored = 1\<rparr>"
  have c: "\<forall>c \<in> set (res_slope_counts_at_x ?R). int c < 5" by simp
  from min_slopes_too_high_empty_curve [OF pd_run_min5 c, of "\<lambda>X_col pdpx pdpy. Inr (0, 0)"]
  show ?thesis using pd_run_min5 by simp
qed

section \<open>The merge of category vectors\<close>

subsection \<open>\<open>np.argmax\<close>\<close>

lemma argmax_loop_props:
  "argmax_loop xs i best bv = r \<Longrightarrow>
     (r = best \<and> (\<forall>x \<in> set xs. x \<le> bv)) \<or>
     (i \<le> r \<and> r < i + length xs \<and> bv < xs ! (r - i) \<and>
      (\<forall>x \<in> set xs. x \<le> xs ! (r - i)) \<and> (\<forall>j < r - i. xs ! j < xs ! (r - i)))"
proof (induction xs arbitrary: i best bv)
  case Nil
  then show ?case by simp
next
  case (Cons x xs)
  show ?case
  proof (cases "bv < x")
    case True
    then have run: "argmax_loop xs (Suc i) i x = r" using Cons.prems by simp
    from Cons.IH [OF run] show ?thesis
    proof
      assume "r = i \<and> (\<forall>y \<in> set xs. y \<le> x)"
      then show ?thesis using True by auto
    next
      assume a: "Suc i \<le> r \<and> r < Suc i + length xs \<and> x < xs ! (r - Suc i) \<and>
        (\<forall>y \<in> set xs. y \<le> xs ! (r - Suc i)) \<and> (\<forall>j < r - Suc i. xs ! j < xs ! (r - Suc i))"
      then have "Suc i \<le> r" by blast
      then have ri: "r - i = Suc (r - Suc i)" by arith
      have "\<forall>j < r - i. (x # xs) ! j < (x # xs) ! (r - i)"
      proof (intro allI impI)
        fix j assume "j < r - i"
        then show "(x # xs) ! j < (x # xs) ! (r - i)"
          using a ri by (cases j) simp_all
      qed
      then show ?thesis using a True ri by auto
    qed
  next
    case False
    then have run: "argmax_loop xs (Suc i) best bv = r" using Cons.prems by simp
    from Cons.IH [OF run] show ?thesis
    proof
      assume "r = best \<and> (\<forall>y \<in> set xs. y \<le> bv)"
      then show ?thesis using False by auto
    next
      assume a: "Suc i \<le> r \<and> r < Suc i + length xs \<and> bv < xs ! (r - Suc i) \<and>
        (\<forall>y \<in> set xs. y \<le> xs ! (r - Suc i)) \<and> (\<forall>j < r - Suc i. xs ! j < xs ! (r - Suc i))"
      then have "Suc i \<le> r" by blast
      then have ri: "r - i = Suc (r - Suc i)" by arith
      have "\<forall>j < r - i. (x # xs) ! j < (x # xs) ! (r - i)"
      proof (intro allI impI)
        fix j assume "j < r - i"
        then show "(x # xs) ! j < (x # xs) ! (r - i)"
          using a ri False by (cases j) simp_all
      qed
      then show ?thesis using a False ri by auto
    qed
  qed
qed

lemma np_argmax_props:
  assumes "xs \<noteq> []"
  shows "np_argmax xs < length xs"
    and "\<forall>j < length xs. xs ! j \<le> xs ! np_argmax xs"
    and "\<forall>j < np_argmax xs. xs ! j < xs ! np_argmax xs"
proof -
  obtain x rest where xs: "xs = x # rest" using assms by (cases xs) auto
  define r where "r = argmax_loop rest 1 0 x"
  have r: "np_argmax xs = r" by (simp add: np_argmax_def xs r_def)
  from argmax_loop_props [OF r_def [symmetric]]
  have "np_argmax xs < length xs \<and> (\<forall>j < length xs. xs ! j \<le> xs ! np_argmax xs) \<and>
        (\<forall>j < np_argmax xs. xs ! j < xs ! np_argmax xs)"
  proof
    assume a: "r = 0 \<and> (\<forall>y \<in> set rest. y \<le> x)"
    have "\<forall>j < length xs. xs ! j \<le> x"
    proof (intro allI impI)
      fix j assume "j < length xs"
      then show "xs ! j \<le> x" using a by (cases j) (simp_all add: xs)
    qed
    then show ?thesis unfolding r using a by (simp add: xs)
  next
    assume a: "1 \<le> r \<and> r < 1 + length rest \<and> x < rest ! (r - 1) \<and>
        (\<forall>y \<in> set rest. y \<le> rest ! (r - 1)) \<and> (\<forall>j < r - 1. rest ! j < rest ! (r - 1))"
    then obtain r' where r': "r = Suc r'" by (cases r) auto
    have le: "\<forall>j < length xs. xs ! j \<le> rest ! r'"
    proof (intro allI impI)
      fix j assume "j < length xs"
      then show "xs ! j \<le> rest ! r'" using a r' by (cases j) (simp_all add: xs)
    qed
    have lt: "\<forall>j < r. xs ! j < rest ! r'"
    proof (intro allI impI)
      fix j assume "j < r"
      then show "xs ! j < rest ! r'" using a r' by (cases j) (simp_all add: xs)
    qed
    show ?thesis unfolding r using a le lt by (simp add: xs r')
  qed
  then show "np_argmax xs < length xs"
    and "\<forall>j < length xs. xs ! j \<le> xs ! np_argmax xs"
    and "\<forall>j < np_argmax xs. xs ! j < xs ! np_argmax xs"
    by blast+
qed

subsection \<open>The anchor category\<close>

lemma length_are_intersecting:
  "length v = length catavg \<Longrightarrow> length (are_intersecting catavg v) = length catavg"
  by (simp add: are_intersecting_def)

lemma nth_are_intersecting:
  "length v = length catavg \<Longrightarrow> i < length catavg \<Longrightarrow>
   are_intersecting catavg v ! i = (catavg ! i \<noteq> None \<and> v ! i \<noteq> None)"
  by (simp add: are_intersecting_def isnan_def)

lemma intersection_idx_nonempty:
  assumes "length v = length catavg"
  shows "np_where (are_intersecting catavg v) \<noteq> []
         \<longleftrightarrow> (\<exists>i < length catavg. catavg ! i \<noteq> None \<and> v ! i \<noteq> None)"
proof -
  have "np_where (are_intersecting catavg v) \<noteq> []
        \<longleftrightarrow> (\<exists>i < length (are_intersecting catavg v). are_intersecting catavg v ! i)"
    by (auto simp: np_where_def filter_empty_conv)
  then show ?thesis
    using assms by (auto simp: length_are_intersecting nth_are_intersecting)
qed

lemma merge_ix_props:
  assumes lv: "length v = length catavg" and lw: "length cur_weight = length catavg"
    and pos: "\<exists>i < length catavg. catavg ! i \<noteq> None \<and> v ! i \<noteq> None \<and> 0 < cur_weight ! i"
  shows "merge_ix catavg v cur_weight < length catavg"
    and "catavg ! merge_ix catavg v cur_weight \<noteq> None"
    and "v ! merge_ix catavg v cur_weight \<noteq> None"
    and "0 < cur_weight ! merge_ix catavg v cur_weight"
    and "\<forall>i < length catavg. catavg ! i \<noteq> None \<and> v ! i \<noteq> None
           \<longrightarrow> cur_weight ! i \<le> cur_weight ! merge_ix catavg v cur_weight"
    and "\<forall>i < merge_ix catavg v cur_weight. catavg ! i \<noteq> None \<and> v ! i \<noteq> None
           \<longrightarrow> cur_weight ! i < cur_weight ! merge_ix catavg v cur_weight"
proof -
  let ?n = "length catavg"
  let ?ms = "map (\<lambda>(w, a). if w > 0 \<and> a then w else 0) (zip cur_weight (are_intersecting catavg v))"
  let ?ix = "merge_ix catavg v cur_weight"
  have len: "length ?ms = ?n" using lv lw by (simp add: length_are_intersecting)
  have nth: "?ms ! i = (if 0 < cur_weight ! i \<and> catavg ! i \<noteq> None \<and> v ! i \<noteq> None
                        then cur_weight ! i else 0)" if "i < ?n" for i
    using that lv lw by (simp add: length_are_intersecting nth_are_intersecting)
  from pos obtain i0 where i0: "i0 < ?n" "catavg ! i0 \<noteq> None" "v ! i0 \<noteq> None" "0 < cur_weight ! i0"
    by blast
  then have ne: "?ms \<noteq> []" using len by auto
  have ix: "?ix = np_argmax ?ms" by (simp add: merge_ix_def)
  note am = np_argmax_props [OF ne, folded ix, unfolded len]
  show ixn: "?ix < ?n" by (rule am(1))
  have "?ms ! i0 \<le> ?ms ! ?ix" using am(2) i0(1) by blast
  then have posix: "0 < ?ms ! ?ix" using i0 nth [of i0] by simp
  then show c: "catavg ! ?ix \<noteq> None" and vv: "v ! ?ix \<noteq> None" and w: "0 < cur_weight ! ?ix"
    using nth [OF ixn] by (auto split: if_splits)
  then have msix: "?ms ! ?ix = cur_weight ! ?ix" using nth [OF ixn] by simp
  show "\<forall>i < ?n. catavg ! i \<noteq> None \<and> v ! i \<noteq> None \<longrightarrow> cur_weight ! i \<le> cur_weight ! ?ix"
  proof (intro allI impI)
    fix i assume i: "i < ?n" and "catavg ! i \<noteq> None \<and> v ! i \<noteq> None"
    then have "cur_weight ! i \<le> ?ms ! i \<or> cur_weight ! i \<le> 0" using nth [OF i] by auto
    moreover have "?ms ! i \<le> ?ms ! ?ix" using am(2) i by blast
    ultimately show "cur_weight ! i \<le> cur_weight ! ?ix" using msix w by linarith
  qed
  show "\<forall>i < ?ix. catavg ! i \<noteq> None \<and> v ! i \<noteq> None \<longrightarrow> cur_weight ! i < cur_weight ! ?ix"
  proof (intro allI impI)
    fix i assume i: "i < ?ix" and "catavg ! i \<noteq> None \<and> v ! i \<noteq> None"
    then have "i < ?n" using ixn by simp
    then have "cur_weight ! i \<le> ?ms ! i \<or> cur_weight ! i \<le> 0"
      using nth [of i] \<open>catavg ! i \<noteq> None \<and> v ! i \<noteq> None\<close> by auto
    moreover have "?ms ! i < ?ms ! ?ix" using am(3) i by blast
    ultimately show "cur_weight ! i < cur_weight ! ?ix" using msix w by linarith
  qed
qed


lemma merge_column_Some:
  assumes "length v = length catavg"
    and "\<exists>i < length catavg. catavg ! i \<noteq> None \<and> v ! i \<noteq> None"
  shows "merge_column (catavg, catavg_weight) v cur_weight =
     Some (nanavg_vectors catavg
             (map (\<lambda>x. fadd (fsub x (v ! merge_ix catavg v cur_weight))
                             (catavg ! merge_ix catavg v cur_weight)) v)
             (PerElem (map real_of_int catavg_weight)) (PerElem (map real_of_int cur_weight)),
           map (\<lambda>(a, b). a + b) (zip catavg_weight cur_weight))"
proof -
  have "np_where (are_intersecting catavg v) \<noteq> []"
    using assms by (simp add: intersection_idx_nonempty)
  then show ?thesis
    by (simp add: merge_column_def Let_def comp_def)
qed

lemma merge_column_None:
  assumes "length v = length catavg"
    and "\<not> (\<exists>i < length catavg. catavg ! i \<noteq> None \<and> v ! i \<noteq> None)"
  shows "merge_column (catavg, catavg_weight) v cur_weight = None"
proof -
  have "np_where (are_intersecting catavg v) = []"
    using assms intersection_idx_nonempty [of v catavg] by blast
  then show ?thesis
    by (simp add: merge_column_def Let_def)
qed

text \<open>
  Claim C8. In a merge step whose intersection is non-empty, for a leaf column in
  which every category present has a positive sample count (a CatWeight column aligned
  with its CatDelta column, as \<open>catwise_leaves\<close> builds every column, see
  \<open>catwise_leaves_positive_counts\<close> below), the anchor \<open>ix\<close> is a category of the
  intersection, no category of the intersection has a larger sample count in the
  leaf, and the step re-references the leaf's vector at \<open>ix\<close> before it fuses it into
  the running vector.
\<close>

theorem anchor_in_intersection_max_weight:
  assumes "length v = length catavg" and "length cur_weight = length catavg"
    and "\<exists>i < length catavg. catavg ! i \<noteq> None \<and> v ! i \<noteq> None"
    and "\<forall>i < length catavg. v ! i \<noteq> None \<longrightarrow> 0 < cur_weight ! i"
  shows "merge_ix catavg v cur_weight < length catavg \<and>
         catavg ! merge_ix catavg v cur_weight \<noteq> None \<and>
         v ! merge_ix catavg v cur_weight \<noteq> None \<and>
         (\<forall>i < length catavg. catavg ! i \<noteq> None \<and> v ! i \<noteq> None
             \<longrightarrow> cur_weight ! i \<le> cur_weight ! merge_ix catavg v cur_weight) \<and>
         merge_column (catavg, catavg_weight) v cur_weight =
           Some (nanavg_vectors catavg
                   (map (\<lambda>x. fadd (fsub x (v ! merge_ix catavg v cur_weight))
                                   (catavg ! merge_ix catavg v cur_weight)) v)
                   (PerElem (map real_of_int catavg_weight)) (PerElem (map real_of_int cur_weight)),
                 map (\<lambda>(a, b). a + b) (zip catavg_weight cur_weight))"
proof -
  have pos: "\<exists>i < length catavg. catavg ! i \<noteq> None \<and> v ! i \<noteq> None \<and> 0 < cur_weight ! i"
    using assms(3,4) by blast
  note ix = merge_ix_props [OF assms(1,2) pos]
  show ?thesis
    using ix(1,2,3,5) merge_column_Some [OF assms(1,3)] by blast
qed

theorem anchor_in_intersection_max_weight_witness:
  "length [None, Some 0, Some 4, Some (- 1 :: real)] = length [Some 0, None, Some 2, Some (5::real)] \<and>
   length [0, 9, 2, 7 :: int] = length [Some 0, None, Some 2, Some (5::real)] \<and>
   list_ex (\<lambda>i. [Some 0, None, Some 2, Some (5::real)] ! i \<noteq> None \<and>
                [None, Some 0, Some 4, Some (- 1 :: real)] ! i \<noteq> None) [0, 1, 2, 3] \<and>
   list_all (\<lambda>i. [None, Some 0, Some 4, Some (- 1 :: real)] ! i = None \<or> 0 < [0, 9, 2, 7 :: int] ! i)
      [0, 1, 2, 3] \<and>
   merge_ix [Some 0, None, Some 2, Some 5] [None, Some 0, Some 4, Some (- 1)] [0, 9, 2, 7] = 3 \<and>
   merge_column ([Some 0, None, Some 2, Some 5], [1, 0, 1, 2])
       [None, Some 0, Some 4, Some (- 1)] [0, 9, 2, 7]
     = Some ([Some 0, Some 6, Some (22 / 3), Some 5], [1, 9, 3, 9])"
proof -
  let ?catavg = "[Some 0, None, Some 2, Some (5::real)]"
  let ?v = "[None, Some 0, Some 4, Some (- 1 :: real)]"
  let ?w = "[0, 9, 2, 7 :: int]"
  have l1: "length ?v = length ?catavg" and l2: "length ?w = length ?catavg" by simp_all
  have ex: "\<exists>i < length ?catavg. ?catavg ! i \<noteq> None \<and> ?v ! i \<noteq> None"
    by (rule exI [of _ 2]) simp
  have al: "\<forall>i < length ?catavg. ?v ! i \<noteq> None \<longrightarrow> 0 < ?w ! i"
    by (simp add: less_Suc_eq)
  have ix: "merge_ix ?catavg ?v ?w = 3" by code_simp
  have mc: "nanavg_vectors ?catavg (map (\<lambda>x. fadd (fsub x (?v ! 3)) (?catavg ! 3)) ?v)
                (PerElem (map real_of_int [1, 0, 1, 2])) (PerElem (map real_of_int ?w))
            = [Some 0, Some 6, Some (22 / 3), Some 5]"
    by code_simp
  from anchor_in_intersection_max_weight [OF l1 l2 ex al, of "[1, 0, 1, 2]"]
  have "merge_column (?catavg, [1, 0, 1, 2]) ?v ?w
          = Some ([Some 0, Some 6, Some (22 / 3), Some 5], [1, 9, 3, 9])"
    unfolding ix mc by simp
  then show ?thesis using ix by simp
qed

subsection \<open>Merging a leaf once more\<close>






subsection \<open>Leaves that agree up to a constant\<close>

lemma fully_overlappingD:
  assumes "fully_overlapping ld lc n" and "j < length ld"
  shows "length (ld ! j) = n" and "length (lc ! j) = n"
    and "\<forall>i < n. ld ! j ! i \<noteq> None" and "\<forall>i < n. 0 < lc ! j ! i"
  using assms by (auto simp: fully_overlapping_def list_all_iff)

lemma shifted_copyD:
  assumes "shifted_copy u v" and "i < length u"
  obtains a b where "u ! i = Some a" and "v ! i = Some b"
    and "b - a = the (v ! 0) - the (u ! 0)"
proof -
  have "u ! i \<noteq> None" and "v ! i \<noteq> None"
    and d: "the (v ! i) - the (u ! i) = the (v ! 0) - the (u ! 0)"
    using assms by (simp_all add: shifted_copy_def list_all_iff)
  then obtain a b where ab: "u ! i = Some a" "v ! i = Some b" by auto
  show thesis using that [OF ab] d ab by simp
qed

lemma weighted_average_same:
  assumes "0 < W" and "0 < w"
  shows "nanavg_elem (Some a) (Some a) (real_of_int W) (real_of_int w) = Some a"
proof -
  have tot: "real_of_int W + real_of_int w \<noteq> 0" using assms by simp
  have "(a * real_of_int W + a * real_of_int w) / (real_of_int W + real_of_int w) = a"
    using tot by (simp add: distrib_left [symmetric])
  then show ?thesis using tot by (simp add: nanavg_elem_both zero_as_one_def)
qed

lemma merge_consistent_column:
  assumes lenu: "length u = n" and lenv: "length v = n"
    and lenW: "length W = n" and lenw: "length w = n" and n: "0 < n"
    and sc: "shifted_copy u v"
    and Wpos: "\<forall>i < n. 0 < W ! i" and wpos: "\<forall>i < n. 0 < w ! i"
  shows "merge_column (u, W) v w = Some (u, map (\<lambda>(a, b). a + b) (zip W w))"
proof -
  let ?ix = "merge_ix u v w"
  let ?adj = "map (\<lambda>x. fadd (fsub x (v ! ?ix)) (u ! ?ix)) v"
  have lv: "length v = length u" and lw: "length w = length u" and lW: "length W = length u"
    using lenu lenv lenw lenW by simp_all
  have n0: "0 < length u" using n lenu by simp
  obtain a0 b0 where "u ! 0 = Some a0" "v ! 0 = Some b0"
    using shifted_copyD [OF sc n0] by metis
  then have pos: "\<exists>i < length u. u ! i \<noteq> None \<and> v ! i \<noteq> None \<and> 0 < w ! i"
    using n0 wpos lenu by (intro exI [of _ 0]) simp
  then have inter: "\<exists>i < length u. u ! i \<noteq> None \<and> v ! i \<noteq> None" by blast
  have ixn: "?ix < length u" using merge_ix_props(1) [OF lv lw pos] .
  obtain a' b' where ix: "u ! ?ix = Some a'" "v ! ?ix = Some b'"
    and kx: "b' - a' = the (v ! 0) - the (u ! 0)"
    using shifted_copyD [OF sc ixn] by metis
  have "nanavg_vectors u ?adj (PerElem (map real_of_int W)) (PerElem (map real_of_int w)) = u"
  proof (rule nth_equalityI)
    show "length (nanavg_vectors u ?adj (PerElem (map real_of_int W)) (PerElem (map real_of_int w)))
            = length u"
      using lv lW lw by (simp add: length_nanavg_vectors)
  next
    fix i
    assume "i < length (nanavg_vectors u ?adj (PerElem (map real_of_int W)) (PerElem (map real_of_int w)))"
    then have i: "i < length u" using lv lW lw by (simp add: length_nanavg_vectors)
    obtain a b where ab: "u ! i = Some a" "v ! i = Some b"
      and k: "b - a = the (v ! 0) - the (u ! 0)"
      using shifted_copyD [OF sc i] by metis
    have "b - b' + a' = a" using k kx by simp
    then have adj: "?adj ! i = Some a"
      using i lv ab ix by (simp add: fadd_def fsub_def fl2_def)
    have "0 < W ! i" and "0 < w ! i" using Wpos wpos i lenu by simp_all
    then have "nanavg_elem (Some a) (Some a) (real_of_int (W ! i)) (real_of_int (w ! i)) = Some a"
      by (rule weighted_average_same)
    moreover have "nanavg_vectors u ?adj (PerElem (map real_of_int W)) (PerElem (map real_of_int w)) ! i
        = nanavg_elem (u ! i) (?adj ! i) (map real_of_int W ! i) (map real_of_int w ! i)"
      using i lv lW lw by (intro nth_nanavg_vectors) simp_all
    ultimately show "nanavg_vectors u ?adj (PerElem (map real_of_int W)) (PerElem (map real_of_int w)) ! i
        = u ! i"
      using ab adj i lW lw by simp
  qed
  then show ?thesis using merge_column_Some [OF lv inter, of W w] by simp
qed

text \<open>One pass merges every leaf of the work list and leaves the running vector as it is.\<close>

lemma merge_pass_consistent:
  assumes fo: "fully_overlapping ld lc n" and n: "0 < n"
    and sc: "\<forall>j < length ld. shifted_copy u (ld ! j)"
    and lenu: "length u = n"
  shows "\<forall>j \<in> set work. j < length ld \<Longrightarrow> length W = n \<Longrightarrow> \<forall>i < n. 0 < W ! i \<Longrightarrow>
         merge_pass ld lc work (u, W) completed =
           ((u, map (\<lambda>i. W ! i + sum_list (map (\<lambda>j. lc ! j ! i) work)) [0..<n]), completed @ work)"
proof (induction work arbitrary: W completed)
  case Nil
  then have "map (\<lambda>i. W ! i) [0..<n] = W" by (metis map_nth)
  then show ?case by simp
next
  case (Cons j work)
  have j: "j < length ld" using Cons.prems(1) by simp
  note col = fully_overlappingD [OF fo j]
  let ?W' = "map (\<lambda>(a, b). a + b) (zip W (lc ! j))"
  have step: "merge_column (u, W) (ld ! j) (lc ! j) = Some (u, ?W')"
    using lenu col(1) Cons.prems(2) col(2) n sc [rule_format, OF j] Cons.prems(3) col(4)
    by (rule merge_consistent_column)
  have lW': "length ?W' = n" using Cons.prems(2) col(2) by simp
  have nW': "?W' ! i = W ! i + lc ! j ! i" if "i < n" for i
    using that Cons.prems(2) col(2) by simp
  have pW': "\<forall>i < n. 0 < ?W' ! i"
    using nW' Cons.prems(3) col(4) by (simp add: add_pos_pos)
  have rest: "\<forall>j \<in> set work. j < length ld" using Cons.prems(1) by simp
  have "map (\<lambda>i. ?W' ! i + sum_list (map (\<lambda>j. lc ! j ! i) work)) [0..<n]
        = map (\<lambda>i. W ! i + sum_list (map (\<lambda>j. lc ! j ! i) (j # work))) [0..<n]"
    using nW' by (intro map_cong) (simp_all add: add.assoc)
  then show ?case
    using step Cons.IH [OF rest lW' pW', of "completed @ [j]"] by simp
qed

lemma merge_while_empty_work: "merge_while k ld lc [] flag st = (st, [])"
  by (cases k) simp_all

lemma merge_while_consistent:
  assumes fo: "fully_overlapping ld lc n" and n: "0 < n"
    and sc: "\<forall>j < length ld. shifted_copy u (ld ! j)"
    and lenu: "length u = n"
    and work: "\<forall>j \<in> set work. j < length ld"
    and W: "length W = n" "\<forall>i < n. 0 < W ! i"
  shows "merge_while (Suc k) ld lc work True (u, W) =
           ((u, map (\<lambda>i. W ! i + sum_list (map (\<lambda>j. lc ! j ! i) work)) [0..<n]), [])"
proof (cases "work = []")
  case True
  have "map (\<lambda>i. W ! i) [0..<n] = W" using W(1) by (metis map_nth)
  then show ?thesis using True by simp
next
  case False
  have pass: "merge_pass ld lc work (u, W) [] =
           ((u, map (\<lambda>i. W ! i + sum_list (map (\<lambda>j. lc ! j ! i) work)) [0..<n]), work)"
    using merge_pass_consistent [OF fo n sc lenu work W, of "[]"] by simp
  have "filter (\<lambda>j. j \<notin> set work) work = []" by (simp add: filter_empty_conv)
  then show ?thesis
    using False pass by (simp add: merge_while_empty_work)
qed


lemma merge_overlapping_column:
  assumes lenu: "length u = n" and lenv: "length v = n"
    and lenW: "length W = n" and lenw: "length w = n" and n: "0 < n"
    and u: "\<forall>i < n. u ! i \<noteq> None" and v: "\<forall>i < n. v ! i \<noteq> None"
    and wpos: "\<forall>i < n. 0 < w ! i"
  shows "\<exists>u'. merge_column (u, W) v w = Some (u', map (\<lambda>(a, b). a + b) (zip W w)) \<and>
              length u' = n \<and> (\<forall>i < n. u' ! i \<noteq> None)"
proof -
  let ?ix = "merge_ix u v w"
  let ?adj = "map (\<lambda>x. fadd (fsub x (v ! ?ix)) (u ! ?ix)) v"
  let ?u' = "nanavg_vectors u ?adj (PerElem (map real_of_int W)) (PerElem (map real_of_int w))"
  have lv: "length v = length u" and lw: "length w = length u" and lW: "length W = length u"
    using lenu lenv lenw lenW by simp_all
  have pos: "\<exists>i < length u. u ! i \<noteq> None \<and> v ! i \<noteq> None \<and> 0 < w ! i"
    using n u v wpos lenu by (intro exI [of _ 0]) simp
  then have inter: "\<exists>i < length u. u ! i \<noteq> None \<and> v ! i \<noteq> None" by blast
  have ixn: "?ix < n" using merge_ix_props(1) [OF lv lw pos] lenu by simp
  have "u ! ?ix \<noteq> None" and "v ! ?ix \<noteq> None" using u v ixn by blast+
  then obtain a' b' where ix: "u ! ?ix = Some a'" "v ! ?ix = Some b'" by auto
  have len: "length ?u' = n" using lv lW lw lenu by (simp add: length_nanavg_vectors)
  have "\<forall>i < n. ?u' ! i \<noteq> None"
  proof (intro allI impI)
    fix i assume i: "i < n"
    have "u ! i \<noteq> None" and "v ! i \<noteq> None" using u v i by blast+
    then obtain a b where ab: "u ! i = Some a" "v ! i = Some b" by auto
    have adj: "?adj ! i = Some (b - b' + a')"
      using i lenv ab ix by (simp add: fadd_def fsub_def fl2_def)
    have "?u' ! i = nanavg_elem (u ! i) (?adj ! i) (map real_of_int W ! i) (map real_of_int w ! i)"
      using i lv lW lw lenu by (intro nth_nanavg_vectors) simp_all
    then show "?u' ! i \<noteq> None"
      by (simp add: ab adj nanavg_elem_both)
  qed
  then show ?thesis
    using merge_column_Some [OF lv inter, of W w] len by simp
qed

lemma merge_pass_overlapping:
  assumes fo: "fully_overlapping ld lc n" and n: "0 < n"
  shows "\<forall>j \<in> set work. j < length ld \<Longrightarrow> length u = n \<Longrightarrow> \<forall>i < n. u ! i \<noteq> None \<Longrightarrow>
         length W = n \<Longrightarrow>
         \<exists>u'. merge_pass ld lc work (u, W) completed =
           ((u', map (\<lambda>i. W ! i + sum_list (map (\<lambda>j. lc ! j ! i) work)) [0..<n]), completed @ work) \<and>
           length u' = n \<and> (\<forall>i < n. u' ! i \<noteq> None)"
proof (induction work arbitrary: u W completed)
  case Nil
  then have "map (\<lambda>i. W ! i) [0..<n] = W" by (metis map_nth)
  then show ?case using Nil by simp
next
  case (Cons j work)
  have j: "j < length ld" using Cons.prems(1) by simp
  note col = fully_overlappingD [OF fo j]
  let ?W' = "map (\<lambda>(a, b). a + b) (zip W (lc ! j))"
  obtain u' where step: "merge_column (u, W) (ld ! j) (lc ! j) = Some (u', ?W')"
    and u': "length u' = n" "\<forall>i < n. u' ! i \<noteq> None"
    using merge_overlapping_column [OF Cons.prems(2) col(1) Cons.prems(4) col(2) n Cons.prems(3) col(3) col(4)]
    by blast
  have lW': "length ?W' = n" using Cons.prems(4) col(2) by simp
  have nW': "?W' ! i = W ! i + lc ! j ! i" if "i < n" for i
    using that Cons.prems(4) col(2) by simp
  have rest: "\<forall>j \<in> set work. j < length ld" using Cons.prems(1) by simp
  have eq: "map (\<lambda>i. ?W' ! i + sum_list (map (\<lambda>j. lc ! j ! i) work)) [0..<n]
        = map (\<lambda>i. W ! i + sum_list (map (\<lambda>j. lc ! j ! i) (j # work))) [0..<n]"
    using nW' by (intro map_cong) (simp_all add: add.assoc)
  from Cons.IH [OF rest u' lW', of "completed @ [j]"]
  show ?case using step eq by simp
qed

lemma merge_while_overlapping:
  assumes fo: "fully_overlapping ld lc n" and n: "0 < n"
    and work: "\<forall>j \<in> set work. j < length ld"
    and u: "length u = n" "\<forall>i < n. u ! i \<noteq> None"
    and W: "length W = n"
  shows "\<exists>u'. merge_while (Suc k) ld lc work True (u, W) =
           ((u', map (\<lambda>i. W ! i + sum_list (map (\<lambda>j. lc ! j ! i) work)) [0..<n]), []) \<and>
           length u' = n \<and> (\<forall>i < n. u' ! i \<noteq> None)"
proof (cases "work = []")
  case True
  have "map (\<lambda>i. W ! i) [0..<n] = W" using W by (metis map_nth)
  then show ?thesis using True u by simp
next
  case False
  obtain u' where pass: "merge_pass ld lc work (u, W) [] =
           ((u', map (\<lambda>i. W ! i + sum_list (map (\<lambda>j. lc ! j ! i) work)) [0..<n]), work)"
    and u': "length u' = n" "\<forall>i < n. u' ! i \<noteq> None"
    using merge_pass_overlapping [OF fo n work u W, of "[]"] by auto
  have "filter (\<lambda>j. j \<notin> set work) work = []" by (simp add: filter_empty_conv)
  then show ?thesis
    using False pass u' by (simp add: merge_while_empty_work)
qed

theorem merge_order_counterexample:
  "fully_overlapping [[Some 0, Some 1], [Some 0, Some 3], [Some 0, Some 5]] [[1, 1], [1, 2], [3, 1]] 2 \<and>
   avg_values_at_cat_in [1, 2] [[Some 0, Some 1], [Some 0, Some 3], [Some 0, Some 5]]
       [[1, 1], [1, 2], [3, 1]] 3 = Inr ([Some (- 1), Some (7 / 4)], [5, 4], 0) \<and>
   avg_values_at_cat_in [2, 1] [[Some 0, Some 1], [Some 0, Some 3], [Some 0, Some 5]]
       [[1, 1], [1, 2], [3, 1]] 3 = Inr ([Some 0, Some 3], [5, 4], 0) \<and>
   avg_values_at_cat [[Some 0, Some 1], [Some 0, Some 3], [Some 0, Some 5]]
       [[1, 1], [1, 2], [3, 1]] 3 = Inr ([Some (- 1), Some (7 / 4)], [5, 4], 0) \<and>
   avg_values_at_cat [[Some 0, Some 1], [Some 0, Some 5], [Some 0, Some 3]]
       [[1, 1], [3, 1], [1, 2]] 3 = Inr ([Some 0, Some 3], [5, 4], 0)"
  by code_simp

lemma merge_order_runs:
  "fully_overlapping [[Some 0, Some 1], [Some 0, Some 3], [Some 0, Some 5]] [[1, 1], [1, 2], [3, 1]] 2"
  "avg_values_at_cat_in [1, 2] [[Some 0, Some 1], [Some 0, Some 3], [Some 0, Some 5]]
       [[1, 1], [1, 2], [3, 1]] 3 = Inr ([Some (- 1), Some (7 / 4)], [5, 4], 0)"
  "avg_values_at_cat_in [2, 1] [[Some 0, Some 1], [Some 0, Some 3], [Some 0, Some 5]]
       [[1, 1], [1, 2], [3, 1]] 3 = Inr ([Some 0, Some 3], [5, 4], 0)"
  by code_simp+

text \<open>
  Claim C1, amended. For leaf columns whose categories fully overlap,
  \<open>avg_values_at_cat\<close> run with at least one pass merges every leaf in whichever order
  the work list is processed: every category of the final vector is resolved, the
  weight of a category is the sum of its counts over all leaves, and no sample is
  merge-ignored. If the delta vectors agree up to an additive constant (every column
  is the first column moved by a constant), the final vector is the same for every
  order: it is the first column. Full overlap alone does not make the final vector
  independent of the order: there are fully overlapping leaves for which two orders
  of merging end in different vectors.
\<close>

theorem consistent_leaves_order_independent:
  assumes "fully_overlapping leaf_deltas leaf_counts ncat" and "0 < ncat"
    and "leaf_deltas \<noteq> []"
    and "distinct order" and "set order = {1..<length leaf_deltas}"
    and "1 \<le> max_iter"
  shows "(\<exists>catavg. avg_values_at_cat_in order leaf_deltas leaf_counts max_iter =
             Inr (catavg, map (\<lambda>i. \<Sum>j < length leaf_deltas. leaf_counts ! j ! i) [0..<ncat], 0) \<and>
           length catavg = ncat \<and> list_all (\<lambda>a. a \<noteq> None) catavg) \<and>
         (list_all (\<lambda>j. shifted_copy (leaf_deltas ! 0) (leaf_deltas ! j)) [0..<length leaf_deltas] \<longrightarrow>
            avg_values_at_cat_in order leaf_deltas leaf_counts max_iter =
              Inr (leaf_deltas ! 0,
                   map (\<lambda>i. \<Sum>j < length leaf_deltas. leaf_counts ! j ! i) [0..<ncat], 0)) \<and>
         (\<exists>D C o1 o2 c1 c2 w.
            fully_overlapping D C 2 \<and>
            distinct o1 \<and> set o1 = {1..<length D} \<and> distinct o2 \<and> set o2 = {1..<length D} \<and>
            avg_values_at_cat_in o1 D C 3 = Inr (c1, w, 0) \<and>
            avg_values_at_cat_in o2 D C 3 = Inr (c2, w, 0) \<and> c1 \<noteq> c2)"
proof -
  let ?N = "length leaf_deltas"
  let ?sums = "map (\<lambda>i. \<Sum>j < ?N. leaf_counts ! j ! i) [0..<ncat]"
  have N: "0 < ?N" using assms(3) by simp
  have lc: "length leaf_counts = ?N" using assms(1) by (simp add: fully_overlapping_def)
  note col0 = fully_overlappingD [OF assms(1) N]
  obtain k where k: "nat max_iter = Suc k" using assms(6) by (cases "nat max_iter") auto
  have work: "\<forall>j \<in> set order. j < ?N" using assms(5) by simp
  have total: "leaf_counts ! 0 ! i + sum_list (map (\<lambda>j. leaf_counts ! j ! i) order)
               = (\<Sum>j < ?N. leaf_counts ! j ! i)" for i
  proof -
    have "sum_list (map (\<lambda>j. leaf_counts ! j ! i) order) = (\<Sum>j \<in> set order. leaf_counts ! j ! i)"
      using assms(4) by (rule sum_list_distinct_conv_sum_set)
    also have "\<dots> = (\<Sum>j = Suc 0..<?N. leaf_counts ! j ! i)" by (simp add: assms(5))
    finally have "leaf_counts ! 0 ! i + sum_list (map (\<lambda>j. leaf_counts ! j ! i) order)
        = (\<Sum>j = 0..<?N. leaf_counts ! j ! i)"
      using N by (simp add: sum.atLeast_Suc_lessThan)
    then show ?thesis by (simp add: lessThan_atLeast0)
  qed
  have general: "\<exists>catavg. avg_values_at_cat_in order leaf_deltas leaf_counts max_iter =
             Inr (catavg, ?sums, 0) \<and> length catavg = ncat \<and> list_all (\<lambda>a. a \<noteq> None) catavg"
  proof -
    obtain u' where loop: "merge_while (nat max_iter) leaf_deltas leaf_counts order True
                 (leaf_deltas ! 0, leaf_counts ! 0) =
        ((u', map (\<lambda>i. leaf_counts ! 0 ! i + sum_list (map (\<lambda>j. leaf_counts ! j ! i) order)) [0..<ncat]), [])"
      and u': "length u' = ncat" "\<forall>i < ncat. u' ! i \<noteq> None"
      unfolding k
      using merge_while_overlapping [OF assms(1,2) work col0(1) col0(3) col0(2), of k] by blast
    have "avg_values_at_cat_in order leaf_deltas leaf_counts max_iter = Inr (u', ?sums, 0)"
      using N lc by (simp add: avg_values_at_cat_in_def Let_def loop total)
    moreover have "list_all (\<lambda>a. a \<noteq> None) u'"
      using u' by (simp add: list_all_length)
    ultimately show ?thesis using u'(1) by blast
  qed
  have consistent: "avg_values_at_cat_in order leaf_deltas leaf_counts max_iter
                      = Inr (leaf_deltas ! 0, ?sums, 0)"
    if "list_all (\<lambda>j. shifted_copy (leaf_deltas ! 0) (leaf_deltas ! j)) [0..<?N]"
  proof -
    have sc: "\<forall>j < ?N. shifted_copy (leaf_deltas ! 0) (leaf_deltas ! j)"
      using that by (simp add: list_all_iff)
    have loop: "merge_while (nat max_iter) leaf_deltas leaf_counts order True
                 (leaf_deltas ! 0, leaf_counts ! 0) =
      ((leaf_deltas ! 0,
        map (\<lambda>i. leaf_counts ! 0 ! i + sum_list (map (\<lambda>j. leaf_counts ! j ! i) order)) [0..<ncat]), [])"
      unfolding k
      by (rule merge_while_consistent [OF assms(1,2) sc col0(1) work col0(2) col0(4)])
    show ?thesis
      using N lc by (simp add: avg_values_at_cat_in_def Let_def loop total)
  qed
  have dependent: "\<exists>D C o1 o2 c1 c2 w.
            fully_overlapping D C 2 \<and>
            distinct o1 \<and> set o1 = {1..<length D} \<and> distinct o2 \<and> set o2 = {1..<length D} \<and>
            avg_values_at_cat_in o1 D C 3 = Inr (c1, w, 0) \<and>
            avg_values_at_cat_in o2 D C 3 = Inr (c2, w, 0) \<and> c1 \<noteq> c2"
  proof (intro exI conjI)
    show "fully_overlapping [[Some 0, Some 1], [Some 0, Some 3], [Some 0, Some 5]]
            [[1, 1], [1, 2], [3, 1]] 2"
      by (rule merge_order_runs(1))
    show "avg_values_at_cat_in [1, 2] [[Some 0, Some 1], [Some 0, Some 3], [Some 0, Some 5]]
            [[1, 1], [1, 2], [3, 1]] 3 = Inr ([Some (- 1), Some (7 / 4)], [5, 4], 0)"
      by (rule merge_order_runs(2))
    show "avg_values_at_cat_in [2, 1] [[Some 0, Some 1], [Some 0, Some 3], [Some 0, Some 5]]
            [[1, 1], [1, 2], [3, 1]] 3 = Inr ([Some 0, Some 3], [5, 4], 0)"
      by (rule merge_order_runs(3))
    show "distinct [1, 2 :: nat]" and "distinct [2, 1 :: nat]" by simp_all
    show "set [1, 2 :: nat] = {1..<length [[Some 0, Some 1], [Some 0, Some 3], [Some 0, Some (5::real)]]}"
      and "set [2, 1 :: nat] = {1..<length [[Some 0, Some 1], [Some 0, Some 3], [Some 0, Some (5::real)]]}"
      by auto
    show "[Some (- 1), Some (7 / 4 :: real)] \<noteq> [Some 0, Some 3]" by simp
  qed
  show ?thesis using general consistent dependent by blast
qed

theorem consistent_leaves_order_independent_witness:
  "fully_overlapping [[Some 0, Some 2], [Some 1, Some 3], [Some 0, Some 2]] [[1, 1], [1, 2], [3, 1]] 2 \<and>
   (0::nat) < 2 \<and>
   [[Some 0, Some 2], [Some 1, Some 3], [Some 0, Some (2::real)]] \<noteq> [] \<and>
   list_all (\<lambda>j. shifted_copy ([[Some 0, Some 2], [Some 1, Some 3], [Some 0, Some 2]] ! 0)
                              ([[Some 0, Some 2], [Some 1, Some 3], [Some 0, Some 2]] ! j))
      [0..<length [[Some 0, Some 2], [Some 1, Some 3], [Some 0, Some (2::real)]]] \<and>
   distinct [2, 1 :: nat] \<and>
   set [2, 1 :: nat] = {1..<length [[Some 0, Some 2], [Some 1, Some 3], [Some 0, Some (2::real)]]} \<and>
   (1::int) \<le> 3 \<and>
   avg_values_at_cat_in [2, 1] [[Some 0, Some 2], [Some 1, Some 3], [Some 0, Some 2]]
       [[1, 1], [1, 2], [3, 1]] 3 = Inr ([Some 0, Some 2], [5, 4], 0)"
proof -
  let ?D = "[[Some 0, Some 2], [Some 1, Some 3], [Some 0, Some (2::real)]]"
  let ?C = "[[1, 1], [1, 2], [3, 1 :: int]]"
  have fo: "fully_overlapping ?D ?C 2" by code_simp
  have n: "(0::nat) < 2" by simp
  have ne: "?D \<noteq> []" by simp
  have sc: "list_all (\<lambda>j. shifted_copy (?D ! 0) (?D ! j)) [0..<length ?D]" by code_simp
  have d: "distinct [2, 1 :: nat]" by simp
  have st: "set [2, 1 :: nat] = {1..<length ?D}" by auto
  have mi: "(1::int) \<le> 3" by simp
  have sums: "map (\<lambda>i. \<Sum>j < length ?D. ?C ! j ! i) [0..<2] = [5, 4]"
    by (simp add: numeral_2_eq_2 numeral_3_eq_3 lessThan_Suc)
  from consistent_leaves_order_independent [OF fo n ne d st mi, THEN conjunct2, THEN conjunct1,
      rule_format, OF sc]
  have "avg_values_at_cat_in [2, 1] ?D ?C 3 = Inr ([Some 0, Some 2], [5, 4], 0)"
    unfolding sums by simp
  with fo n ne sc d st mi show ?thesis by blast
qed

subsection \<open>The columns that \<open>catwise_leaves\<close> builds\<close>

lemma length_fold_update:
  "length (fold (\<lambda>(k, x) col. col[k := f x]) ps col) = length col"
  by (induction ps arbitrary: col) (simp_all add: case_prod_beta)

lemma fold_update_nth:
  assumes "distinct (map fst ps)" and "i < length col"
  shows "fold (\<lambda>(k, x) col. col[k := f x]) ps col ! i
           = (case map_of ps i of None \<Rightarrow> col ! i | Some x \<Rightarrow> f x)"
  using assms
proof (induction ps arbitrary: col)
  case Nil
  then show ?case by simp
next
  case (Cons p ps)
  obtain k x where p: "p = (k, x)" by (cases p)
  have d: "distinct (map fst ps)" and k: "k \<notin> fst ` set ps" using Cons.prems(1) p by simp_all
  have "map_of ps k = None" using k by (simp add: map_of_eq_None_iff)
  then show ?case
    using Cons.IH [OF d, of "col[k := f x]"] Cons.prems(2) p
    by (auto simp: nth_list_update split: option.splits)
qed

lemma catwise_leaf_aligned:
  assumes "catwise_leaf leaf_cats leaf_y max_catcode = Inr (Some (d, c))"
  shows "aligned_column max_catcode d c"
    and "\<forall>i \<le> max_catcode. d ! i \<noteq> None \<longleftrightarrow> i \<in> set leaf_cats"
    and "\<forall>i \<le> max_catcode. c ! i = int (count_list leaf_cats i)"
proof -
  define u where "u = np_unique leaf_cats"
  define cnt where "cnt = map (\<lambda>cat. int (count_list leaf_cats cat)) u"
  define avg where
    "avg = map (\<lambda>cat. mean (map snd (filter (\<lambda>(c, yi). c = cat) (zip leaf_cats leaf_y)))) u"
  define delta where "delta = map (\<lambda>a. a - avg ! 0) avg"
  define nans where "nans = replicate (max_catcode + 1) (None :: fl)"
  define zeros where "zeros = replicate (max_catcode + 1) (0 :: int)"
  have d: "d = fold (\<lambda>(cat, d) col. col[cat := Some d]) (zip u delta) nans"
    and c: "c = fold (\<lambda>(cat, n) col. col[cat := id n]) (zip u cnt) zeros"
    using assms unfolding catwise_leaf_def Let_def u_def cnt_def avg_def delta_def nans_def zeros_def
    by (auto split: if_splits)
  have lu: "length delta = length u" "length cnt = length u"
    by (simp_all add: delta_def avg_def cnt_def)
  have du: "distinct u" and su: "set u = set leaf_cats" by (simp_all add: u_def)
  have dist1: "distinct (map fst (zip u delta))" and dist2: "distinct (map fst (zip u cnt))"
    using du lu by simp_all
  have ln: "length nans = max_catcode + 1" and lz: "length zeros = max_catcode + 1"
    by (simp_all add: nans_def zeros_def)
  have ld: "length d = max_catcode + 1" unfolding d by (simp only: length_fold_update ln)
  have lc: "length c = max_catcode + 1" unfolding c by (simp only: length_fold_update lz)
  have dn: "d ! i \<noteq> None \<longleftrightarrow> i \<in> set leaf_cats" if "i \<le> max_catcode" for i
  proof -
    have i: "i < length nans" using that ln by simp
    have "d ! i = (case map_of (zip u delta) i of None \<Rightarrow> nans ! i | Some x \<Rightarrow> Some x)"
      unfolding d by (rule fold_update_nth [OF dist1 i])
    moreover have "nans ! i = None"
      unfolding nans_def using that by (intro nth_replicate) simp
    moreover have "map_of (zip u delta) i = None \<longleftrightarrow> i \<notin> set u"
      using lu(1) by (simp add: map_of_zip_is_None)
    ultimately show ?thesis using su by (auto split: option.splits)
  qed
  have cn: "c ! i = int (count_list leaf_cats i)" if "i \<le> max_catcode" for i
  proof -
    have i: "i < length zeros" using that lz by simp
    have ci: "c ! i = (case map_of (zip u cnt) i of None \<Rightarrow> zeros ! i | Some n \<Rightarrow> id n)"
      unfolding c by (rule fold_update_nth [OF dist2 i])
    have z: "zeros ! i = 0"
      unfolding zeros_def using that by (intro nth_replicate) simp
    show ?thesis
    proof (cases "i \<in> set u")
      case True
      then have "map_of (zip u cnt) i = Some (int (count_list leaf_cats i))"
        unfolding cnt_def by (simp add: map_of_zip_map)
      then show ?thesis using ci by simp
    next
      case False
      then have "map_of (zip u cnt) i = None" using lu(2) by (simp add: map_of_zip_is_None)
      moreover have "count_list leaf_cats i = 0" using False su by (simp add: count_list_0_iff)
      ultimately show ?thesis using ci z by simp
    qed
  qed
  show "\<forall>i \<le> max_catcode. d ! i \<noteq> None \<longleftrightarrow> i \<in> set leaf_cats" using dn by blast
  show "\<forall>i \<le> max_catcode. c ! i = int (count_list leaf_cats i)" using cn by blast
  have "(d ! i \<noteq> None) = (0 < c ! i)" if "i \<le> max_catcode" for i
    using dn [OF that] cn [OF that] by (simp add: count_list_0_iff zero_less_iff_neq_zero)
  then show "aligned_column max_catcode d c"
    using ld lc by (simp add: aligned_column_def list_all_iff)
qed

lemma catwise_loop_aligned:
  "catwise_loop leaves X_col y max_catcode acc = Inr (ld, lc, ig) \<Longrightarrow>
   length (fst acc) = length (fst (snd acc)) \<Longrightarrow>
   (\<forall>j < length (fst acc). aligned_column max_catcode (fst acc ! j) (fst (snd acc) ! j)) \<Longrightarrow>
   length ld = length lc \<and> (\<forall>j < length ld. aligned_column max_catcode (ld ! j) (lc ! j))"
proof (induction leaves X_col y max_catcode acc rule: catwise_loop.induct)
  case (1 X_col y max_catcode acc)
  then show ?case by auto
next
  case (2 sample leaves X_col y max_catcode leaf_deltas leaf_counts ignored)
  let ?r = "catwise_leaf (map (\<lambda>i. X_col ! i) sample) (map (\<lambda>i. y ! i) sample) max_catcode"
  from "2.prems"(1) have idx: "list_all (\<lambda>i. i < length X_col \<and> i < length y) sample"
    by (auto split: if_splits)
  from "2.prems"(1) idx obtain res where r: "?r = Inr res"
    by (cases ?r) auto
  show ?case
  proof (cases res)
    case None
    with "2.prems" idx r show ?thesis
      using "2.IH"(1) [OF _ r None] by simp
  next
    case (Some dc)
    obtain d c where dc: "dc = (d, c)" by (cases dc)
    have al: "aligned_column max_catcode d c"
      using catwise_leaf_aligned(1) r Some dc by blast
    have run: "catwise_loop leaves X_col y max_catcode (leaf_deltas @ [d], leaf_counts @ [c], ignored)
                 = Inr (ld, lc, ig)"
      using "2.prems"(1) idx r Some dc by simp
    have len: "length (leaf_deltas @ [d]) = length (leaf_counts @ [c])"
      using "2.prems"(2) by simp
    have inv: "\<forall>j < length (leaf_deltas @ [d]).
                 aligned_column max_catcode ((leaf_deltas @ [d]) ! j) ((leaf_counts @ [c]) ! j)"
      using "2.prems"(2,3) al by (auto simp: nth_append less_Suc_eq)
    show ?thesis
      using "2.IH"(2) [OF _ r Some dc [symmetric] run] idx len inv by simp
  qed
qed

text \<open>
  Every column that \<open>catwise_leaves\<close> returns is aligned: a category has a delta in a
  leaf exactly where the leaf has samples of it.
\<close>

lemma catwise_leaves_aligned:
  assumes "catwise_leaves rf X_not_col X_col y max_catcode = Inr (ld, lc, ig)"
  shows "length ld = length lc"
    and "\<forall>j < length ld. aligned_column max_catcode (ld ! j) (lc ! j)"
  using catwise_loop_aligned [of "leaf_samples rf X_not_col" X_col y max_catcode "([], [], 0)" ld lc ig]
    assms by (simp_all add: catwise_leaves_def)


text \<open>
  So the merge steps of \<open>avg_values_at_cat\<close> on the output of \<open>catwise_leaves\<close> meet the
  hypothesis of the anchor theorem: in every column a category with a value has a
  positive sample count.
\<close>

lemma catwise_leaves_positive_counts:
  assumes "catwise_leaves rf X_not_col X_col y max_catcode = Inr (ld, lc, ig)"
    and "j < length ld"
  shows "length (lc ! j) = length (ld ! j)"
    and "\<forall>i < length (ld ! j). ld ! j ! i \<noteq> None \<longrightarrow> 0 < lc ! j ! i"
proof -
  have al: "aligned_column max_catcode (ld ! j) (lc ! j)"
    using catwise_leaves_aligned(2) [OF assms(1)] assms(2) by blast
  then have len: "length (ld ! j) = max_catcode + 1" "length (lc ! j) = max_catcode + 1"
    and eq: "list_all (\<lambda>i. (ld ! j ! i \<noteq> None) = (0 < lc ! j ! i)) [0..<max_catcode + 1]"
    by (simp_all only: aligned_column_def)
  show "length (lc ! j) = length (ld ! j)" by (simp only: len)
  show "\<forall>i < length (ld ! j). ld ! j ! i \<noteq> None \<longrightarrow> 0 < lc ! j ! i"
  proof (intro allI impI)
    fix i assume i: "i < length (ld ! j)" and v: "ld ! j ! i \<noteq> None"
    have "i < max_catcode + 1" using i by (simp only: len(1))
    then have "i \<in> set [0..<max_catcode + 1]" by (simp only: set_upt atLeastLessThan_iff) simp
    then have "(ld ! j ! i \<noteq> None) = (0 < lc ! j ! i)"
      using eq unfolding list_all_iff by (rule bspec [rotated])
    then show "0 < lc ! j ! i" using v by simp
  qed
qed


lemma catwise_leaf_run:
  "catwise_leaf [3, 4, 4] [1, 4, 6] 4
     = Inr (Some ([None, None, None, Some 0, Some 4], [0, 0, 0, 1, 2]))"
  by code_simp

end
